theory Spec2Isabelle
  imports Main "HOL-Library.Sublist"
begin

section \<open>Configuration constants (\<^verbatim>\<open>CONFIG\<close> in app.js)\<close>

definition DEBOUNCE_DELAY :: nat where
  "DEBOUNCE_DELAY = 300"

definition CACHE_DURATION :: int where
  "CACHE_DURATION = 3600000"

definition MAX_RETRIES :: nat where
  "MAX_RETRIES = 3"

definition RETRY_DELAY_BASE :: nat where
  "RETRY_DELAY_BASE = 1000"

section \<open>JavaScript strings, values and exceptions\<close>

text \<open>
  Strings are \<^typ>\<open>string\<close>: the UTF-8 bytes of the JavaScript text, which is taken to be
  well-formed Unicode. \<open>includes\<close> is the substring test; on UTF-8 bytes it agrees with the
  test on code units.

  \<open>String.prototype.toLowerCase\<close> follows the case tables of Unicode, which are no part
  of this repository: every function that calls it takes it as its first argument,
  \<open>toLowerCase\<close>.

  \<open>String.prototype.trim\<close> strips at both ends the code points that ECMAScript calls
  WhiteSpace and LineTerminator: U+0009 to U+000D, U+0020, U+00A0, U+1680, U+2000 to
  U+200A, U+2028, U+2029, U+202F, U+205F, U+3000 and U+FEFF. \<open>white_space\<close> lists their
  UTF-8 bytes.
\<close>

definition white_space :: "string list" where
  "white_space =
     [[CHR 0x09], [CHR 0x0A], [CHR 0x0B], [CHR 0x0C], [CHR 0x0D], [CHR 0x20],
      [CHR 0xC2, CHR 0xA0],
      [CHR 0xE1, CHR 0x9A, CHR 0x80],
      [CHR 0xE2, CHR 0x80, CHR 0x80], [CHR 0xE2, CHR 0x80, CHR 0x81],
      [CHR 0xE2, CHR 0x80, CHR 0x82], [CHR 0xE2, CHR 0x80, CHR 0x83],
      [CHR 0xE2, CHR 0x80, CHR 0x84], [CHR 0xE2, CHR 0x80, CHR 0x85],
      [CHR 0xE2, CHR 0x80, CHR 0x86], [CHR 0xE2, CHR 0x80, CHR 0x87],
      [CHR 0xE2, CHR 0x80, CHR 0x88], [CHR 0xE2, CHR 0x80, CHR 0x89],
      [CHR 0xE2, CHR 0x80, CHR 0x8A],
      [CHR 0xE2, CHR 0x80, CHR 0xA8], [CHR 0xE2, CHR 0x80, CHR 0xA9],
      [CHR 0xE2, CHR 0x80, CHR 0xAF],
      [CHR 0xE2, CHR 0x81, CHR 0x9F],
      [CHR 0xE3, CHR 0x80, CHR 0x80],
      [CHR 0xEF, CHR 0xBB, CHR 0xBF]]"

text \<open>Stripping from the front, as long as one of the byte sequences \<open>ws\<close> stands there.\<close>

function strip :: "string list \<Rightarrow> string \<Rightarrow> string" where
  "strip ws s =
     (case find (\<lambda>w. w \<noteq> [] \<and> prefix w s) ws of
        None \<Rightarrow> s
      | Some w \<Rightarrow> strip ws (drop (length w) s))"
  by pat_completeness auto
termination
proof (relation "measure (\<lambda>(ws, s). length s)")
  show "wf (measure (\<lambda>(ws, s). length s))"
    by simp
next
  fix ws :: "string list" and s w :: string
  assume "find (\<lambda>w. w \<noteq> [] \<and> prefix w s) ws = Some w"
  then have "w \<noteq> []" and "prefix w s"
    by (auto simp: find_Some_iff)
  then have "0 < length w" and "length w \<le> length s"
    by (auto simp: prefix_length_le)
  then have "length s - length w < length s"
    by arith
  then show "((ws, drop (length w) s), (ws, s)) \<in> measure (\<lambda>(ws, s). length s)"
    by simp
qed

declare strip.simps [simp del]

definition trimStart :: "string \<Rightarrow> string" where
  "trimStart s = strip white_space s"

definition trimEnd :: "string \<Rightarrow> string" where
  "trimEnd s = rev (strip (map rev white_space) (rev s))"

definition trim :: "string \<Rightarrow> string" where
  "trim s = trimEnd (trimStart s)"

fun includes_str :: "string \<Rightarrow> string \<Rightarrow> bool" where
  "includes_str [] q = (q = [])"
| "includes_str (c # cs) q = (prefix q (c # cs) \<or> includes_str cs q)"

text \<open>
  The code points of a string, each with its UTF-8 bytes: a byte from \<open>0x80\<close> to \<open>0xBF\<close>
  continues the code point before it. Spreading a string (\<^verbatim>\<open>[...s]\<close>) gives these.
\<close>

definition is_continuation :: "char \<Rightarrow> bool" where
  "is_continuation c = (128 \<le> (of_char c :: nat) \<and> (of_char c :: nat) < 192)"

function code_points :: "string \<Rightarrow> string list" where
  "code_points [] = []"
| "code_points (c # cs) =
     (c # takeWhile is_continuation cs) # code_points (dropWhile is_continuation cs)"
  by pat_completeness auto
termination
  by (relation "measure length") (auto simp: length_dropWhile_le less_Suc_eq_le)

text \<open>Decimal digits of a number, as the template literal \<^verbatim>\<open>`HTTP ${response.status}`\<close> prints them.\<close>

fun string_of_nat :: "nat \<Rightarrow> string" where
  "string_of_nat n =
     (if n < 10 then [''0123456789'' ! n]
      else string_of_nat (n div 10) @ [''0123456789'' ! (n mod 10)])"

declare string_of_nat.simps [simp del]

text \<open>
  A thrown value: the error class and its \<open>message\<close>. Every value thrown on the paths
  modelled here is an \<open>Error\<close> object (thrown by the code itself, by \<open>fetch\<close>, by
  \<open>JSON.parse\<close>, by the storage, or a \<open>TypeError\<close> of the language).
\<close>

datatype exn = Error string | TypeError string | SyntaxError string | DOMException string

fun message :: "exn \<Rightarrow> string" where
  "message (Error m) = m"
| "message (TypeError m) = m"
| "message (SyntaxError m) = m"
| "message (DOMException m) = m"

text \<open>
  The values a parsed JSON document can hold, and \<open>undefined\<close> for a field that is
  missing. Numbers are integers here; a fractional number behaves on these paths like a
  non-zero integer.
\<close>

datatype jsval =
    JUndefined
  | JNull
  | JBool bool
  | JNum int
  | JStr string
  | JArr "jsval list"
  | JObj "(string \<times> jsval) list"

fun truthy :: "jsval \<Rightarrow> bool" where
  "truthy JUndefined = False"
| "truthy JNull = False"
| "truthy (JBool b) = b"
| "truthy (JNum n) = (n \<noteq> 0)"
| "truthy (JStr s) = (s \<noteq> [])"
| "truthy (JArr xs) = True"
| "truthy (JObj kvs) = True"

text \<open>
  Reading the property \<open>name\<close> of a value (\<^verbatim>\<open>v.name\<close>), for the names the code reads from
  the elements of the index (\<open>title\<close>, \<open>excerpt\<close>, \<open>tags\<close>, \<open>date\<close>): a \<open>TypeError\<close> on
  \<open>null\<close> and \<open>undefined\<close>, the value stored in an object (each key stands once in its
  list), and \<open>undefined\<close> wherever else, as no string, number, boolean or array has a
  property of these names.
\<close>

fun read_prop :: "jsval \<Rightarrow> string \<Rightarrow> exn + jsval" where
  "read_prop JUndefined name = Inl (TypeError ''Cannot read properties of undefined'')"
| "read_prop JNull name = Inl (TypeError ''Cannot read properties of null'')"
| "read_prop (JObj kvs) name = Inr (case map_of kvs name of None \<Rightarrow> JUndefined | Some v \<Rightarrow> v)"
| "read_prop v name = Inr JUndefined"

section \<open>The Blog object and its surroundings\<close>

text \<open>
  The fields of \<^verbatim>\<open>class Blog\<close> that hold data. \<open>allPosts\<close> is whatever value the code has
  put there (the parsed body of the index, or the empty array), \<open>posts\<close> is an array;
  \<open>loadedPosts\<close> is the \<^verbatim>\<open>Map\<close> of rendered posts; \<open>currentSlug\<close> is \<open>None\<close> for \<open>null\<close> and
  \<open>undefined\<close>.
\<close>

record blog =
  posts :: "jsval list"
  allPosts :: jsval
  currentView :: string
  currentSlug :: "string option"
  loadedPosts :: "string \<rightharpoonup> string"

text \<open>
  \<open>localStorage\<close>, by key. The text stored under a key is represented by what
  \<open>JSON.parse\<close> makes of it: \<open>Unparsable\<close> when it throws (the empty text included), and
  \<open>Parsed data timestamp\<close> for the text \<open>saveToCache\<close> writes, an object with a string
  \<open>data\<close> and a number \<open>timestamp\<close> (milliseconds).
\<close>

datatype stored = Unparsable | Parsed string int

type_synonym storage = "string \<rightharpoonup> stored"

fun JSON_parse :: "stored \<Rightarrow> exn + (string \<times> int)" where
  "JSON_parse Unparsable = Inl (SyntaxError ''Unexpected token'')"
| "JSON_parse (Parsed d t) = Inr (d, t)"

text \<open>What the loader does to the outside world, in order.\<close>

datatype event =
    Fetch string
  | Delay nat
  | GetItem string
  | RemoveItem string
  | SetItem string

text \<open>
  A response of \<open>fetch\<close>: \<open>ok\<close>, \<open>status\<close>, and what reading the body gives, as text
  (\<open>response.text()\<close>) and as JSON (\<open>response.json()\<close>, any JSON value); \<open>Inl\<close> is a
  rejected promise.
\<close>

record response =
  ok :: bool
  status :: nat
  text_body :: "exn + string"
  json_body :: "exn + jsval"

text \<open>
  Everything a call of the loader reads from outside: \<open>Date.now()\<close> when the call starts,
  the outcome of the \<open>i\<close>-th \<open>fetch\<close> of the call, the global \<open>marked\<close> (\<open>None\<close> when
  \<^verbatim>\<open>typeof marked === 'undefined'\<close>; its \<open>parse\<close> may throw), \<open>Date.now()\<close> when attempt
  \<open>i\<close> saves its result, whether \<open>localStorage.setItem\<close> throws (quota), the number
  \<^verbatim>\<open>new Date(x)\<close> converts to (\<open>None\<close> is \<open>NaN\<close>, an invalid date), and the order in which
  the engine's \<open>sort\<close> leaves an array when the comparator is not consistent, which
  ECMAScript leaves to the implementation.
\<close>

record env =
  date_now :: int
  fetch :: "nat \<Rightarrow> string \<Rightarrow> exn + response"
  marked :: "(string \<Rightarrow> exn + string) option"
  date_now_after :: "nat \<Rightarrow> int"
  setItem_throws :: bool
  Date_ms :: "jsval \<Rightarrow> int option"
  engine_sort :: "jsval list \<Rightarrow> jsval list"

section \<open>Persistent cache (\<^verbatim>\<open>getFromCache\<close>, \<^verbatim>\<open>saveToCache\<close>)\<close>

definition cache_key :: "string \<Rightarrow> string" where
  "cache_key slug = ''blog_post_'' @ slug"

text \<open>
  \<^verbatim>\<open>getFromCache(slug)\<close>: the result (\<open>None\<close> is \<open>null\<close>), the store afterwards and the
  accesses made. The \<open>Inl\<close> branch of \<open>JSON_parse\<close> is the \<^verbatim>\<open>catch\<close>.
\<close>

definition getFromCache :: "int \<Rightarrow> string \<Rightarrow> storage \<Rightarrow> string option \<times> storage \<times> event list" where
  "getFromCache now slug ls =
     (let key = cache_key slug in
      case ls key of
        None \<Rightarrow> (None, ls, [GetItem key])
      | Some cached \<Rightarrow>
          (case JSON_parse cached of
             Inl error \<Rightarrow> (None, ls, [GetItem key])
           | Inr (data, timestamp) \<Rightarrow>
               (let age = now - timestamp in
                if age < CACHE_DURATION then (Some data, ls, [GetItem key])
                else (None, ls(key := None), [GetItem key, RemoveItem key]))))"

text \<open>\<^verbatim>\<open>saveToCache(slug, data)\<close>: a throwing \<open>setItem\<close> is caught and the store is left as it was.\<close>

definition saveToCache :: "bool \<Rightarrow> int \<Rightarrow> string \<Rightarrow> string \<Rightarrow> storage \<Rightarrow> storage \<times> event list" where
  "saveToCache throws now slug data ls =
     (let key = cache_key slug in
      if throws then (ls, [SetItem key])
      else (ls(key \<mapsto> Parsed data now), [SetItem key]))"

section \<open>Content fetcher (\<^verbatim>\<open>loadPost\<close>, \<^verbatim>\<open>loadPosts\<close>)\<close>

definition post_url :: "string \<Rightarrow> string" where
  "post_url slug = ''posts/'' @ slug @ ''.md''"

definition parser_missing :: string where
  "parser_missing =
     ''Markdown '' @ [CHR 0xD0, CHR 0xBF, CHR 0xD0, CHR 0xB0, CHR 0xD1, CHR 0x80, CHR 0xD1, CHR 0x81, CHR 0xD0, CHR 0xB5, CHR 0xD1, CHR 0x80] @
     '' '' @ [CHR 0xD0, CHR 0xBD, CHR 0xD0, CHR 0xB5] @
     '' '' @ [CHR 0xD0, CHR 0xB7, CHR 0xD0, CHR 0xB0, CHR 0xD0, CHR 0xB3, CHR 0xD1, CHR 0x80, CHR 0xD1, CHR 0x83, CHR 0xD0, CHR 0xB6, CHR 0xD0, CHR 0xB5, CHR 0xD0, CHR 0xBD]"

text \<open>
  The \<^verbatim>\<open>try\<close> block of one attempt, up to the rendered markup: \<open>Inl\<close> is the value thrown
  into the \<^verbatim>\<open>catch\<close>.
\<close>

definition attempt :: "env \<Rightarrow> nat \<Rightarrow> string \<Rightarrow> exn + string" where
  "attempt e i slug =
     (case fetch e i (post_url slug) of
        Inl error \<Rightarrow> Inl error
      | Inr response \<Rightarrow>
          if \<not> ok response then Inl (Error (''HTTP '' @ string_of_nat (status response)))
          else
            (case text_body response of
               Inl error \<Rightarrow> Inl error
             | Inr markdown \<Rightarrow>
                 (case marked e of
                    None \<Rightarrow> Inl (Error parser_missing)
                  | Some parse \<Rightarrow> parse markdown)))"

text \<open>The markup returned when the last attempt has failed, around \<^verbatim>\<open>${error.message}\<close>.\<close>

definition error_fragment_head :: string where
  "error_fragment_head =
     ''\<newline>'' @
     ''                        <div class=\"error-state\">\<newline>'' @
     ''                            <h2>'' @ [CHR 0xF0, CHR 0x9F, CHR 0x98, CHR 0x94] @ '' '' @ [CHR 0xD0, CHR 0x9F, CHR 0xD0, CHR 0xBE, CHR 0xD1, CHR 0x81, CHR 0xD1, CHR 0x82] @ '' '' @ [CHR 0xD0, CHR 0xBD, CHR 0xD0, CHR 0xB5] @ '' '' @ [CHR 0xD0, CHR 0xBD, CHR 0xD0, CHR 0xB0, CHR 0xD0, CHR 0xB9, CHR 0xD0, CHR 0xB4, CHR 0xD0, CHR 0xB5, CHR 0xD0, CHR 0xBD] @ ''</h2>\<newline>'' @
     ''                            <p>'' @ [CHR 0xD0, CHR 0x9A] @ '' '' @ [CHR 0xD1, CHR 0x81, CHR 0xD0, CHR 0xBE, CHR 0xD0, CHR 0xB6, CHR 0xD0, CHR 0xB0, CHR 0xD0, CHR 0xBB, CHR 0xD0, CHR 0xB5, CHR 0xD0, CHR 0xBD, CHR 0xD0, CHR 0xB8, CHR 0xD1, CHR 0x8E] @ '', '' @ [CHR 0xD1, CHR 0x8D, CHR 0xD1, CHR 0x82, CHR 0xD0, CHR 0xBE, CHR 0xD1, CHR 0x82] @ '' '' @ [CHR 0xD0, CHR 0xBF, CHR 0xD0, CHR 0xBE, CHR 0xD1, CHR 0x81, CHR 0xD1, CHR 0x82] @ '' '' @ [CHR 0xD0, CHR 0xBD, CHR 0xD0, CHR 0xB5, CHR 0xD0, CHR 0xB4, CHR 0xD0, CHR 0xBE, CHR 0xD1, CHR 0x81, CHR 0xD1, CHR 0x82, CHR 0xD1, CHR 0x83, CHR 0xD0, CHR 0xBF, CHR 0xD0, CHR 0xB5, CHR 0xD0, CHR 0xBD] @ ''.</p>\<newline>'' @
     ''                            <p style=\"font-size: 0.875rem; color: var(--text-tertiary); margin-top: 1rem;\">\<newline>'' @
     ''                                '' @ [CHR 0xD0, CHR 0x9E, CHR 0xD1, CHR 0x88, CHR 0xD0, CHR 0xB8, CHR 0xD0, CHR 0xB1, CHR 0xD0, CHR 0xBA, CHR 0xD0, CHR 0xB0] @ '': ''"

definition error_fragment_mid :: string where
  "error_fragment_mid =
     ''\<newline>'' @
     ''                            </p>\<newline>'' @
     ''                            ''"

text \<open>
  The opening tag of the link back; \<^verbatim>\<open>render\<close> finds it by its class \<open>back-button\<close> and
  makes a click on it call \<open>navigateTo('home')\<close>.
\<close>

definition back_control :: string where
  "back_control = ''<a href=\"#\" class=\"back-button\">''"

definition error_fragment_end :: string where
  "error_fragment_end =
     [CHR 0xD0, CHR 0x92, CHR 0xD0, CHR 0xB5, CHR 0xD1, CHR 0x80, CHR 0xD0, CHR 0xBD, CHR 0xD1, CHR 0x83, CHR 0xD1, CHR 0x82, CHR 0xD1, CHR 0x8C, CHR 0xD1, CHR 0x81, CHR 0xD1, CHR 0x8F] @ '' '' @ [CHR 0xD0, CHR 0xBA] @ '' '' @ [CHR 0xD0, CHR 0xBF, CHR 0xD0, CHR 0xBE, CHR 0xD1, CHR 0x81, CHR 0xD1, CHR 0x82, CHR 0xD0, CHR 0xB0, CHR 0xD0, CHR 0xBC] @ ''</a>\<newline>'' @
     ''                        </div>\<newline>'' @
     ''                    ''"

definition error_fragment_tail :: string where
  "error_fragment_tail = error_fragment_mid @ back_control @ error_fragment_end"

definition error_fragment :: "string \<Rightarrow> string" where
  "error_fragment msg = error_fragment_head @ msg @ error_fragment_tail"

text \<open>
  What a call of \<open>loadPost\<close> returns, by the \<^verbatim>\<open>return\<close> statement that produced it: the
  value of the memory cache, the payload of the persistent cache, the markup just
  converted, the error fragment, or \<open>undefined\<close> when the loop body never ran.
\<close>

datatype load_result =
    FromMemory string
  | FromStorage string
  | FromNetwork string
  | Failed string
  | NoReturn

fun returned :: "load_result \<Rightarrow> string option" where
  "returned (FromMemory v) = Some v"
| "returned (FromStorage v) = Some v"
| "returned (FromNetwork v) = Some v"
| "returned (Failed v) = Some v"
| "returned NoReturn = None"

fun loaded :: "load_result \<Rightarrow> bool" where
  "loaded (FromMemory v) = True"
| "loaded (FromStorage v) = True"
| "loaded (FromNetwork v) = True"
| "loaded (Failed v) = False"
| "loaded NoReturn = False"

text \<open>The retry loop \<^verbatim>\<open>for (let i = 0; i < retries; i++)\<close>, entered at \<open>i\<close>.\<close>

function loadPost_loop ::
  "env \<Rightarrow> string \<Rightarrow> nat \<Rightarrow> nat \<Rightarrow> blog \<Rightarrow> storage \<Rightarrow> load_result \<times> blog \<times> storage \<times> event list" where
  "loadPost_loop e slug retries i b ls =
     (if i < retries then
        (case attempt e i slug of
           Inr html \<Rightarrow>
             (let b' = b\<lparr>loadedPosts := (loadedPosts b)(slug \<mapsto> html)\<rparr>;
                  (ls', evs) = saveToCache (setItem_throws e) (date_now_after e i) slug html ls
              in (FromNetwork html, b', ls', Fetch (post_url slug) # evs))
         | Inl error \<Rightarrow>
             (let isLastAttempt = (i = retries - 1) in
              if isLastAttempt then
                (Failed (error_fragment (message error)), b, ls, [Fetch (post_url slug)])
              else
                (let delay = RETRY_DELAY_BASE * (i + 1);
                     (r, b', ls', evs) = loadPost_loop e slug retries (i + 1) b ls
                 in (r, b', ls', Fetch (post_url slug) # Delay delay # evs))))
      else (NoReturn, b, ls, []))"
  by pat_completeness auto
termination
  by (relation "measure (\<lambda>(e, slug, retries, i, b, ls). retries - i)") auto

declare loadPost_loop.simps [simp del]

text \<open>\<^verbatim>\<open>loadPost(slug, retries)\<close>; the caller \<open>renderPost\<close> leaves \<open>retries\<close> at \<open>MAX_RETRIES\<close>.\<close>

definition loadPost ::
  "env \<Rightarrow> string \<Rightarrow> nat \<Rightarrow> blog \<Rightarrow> storage \<Rightarrow> load_result \<times> blog \<times> storage \<times> event list" where
  "loadPost e slug retries b ls =
     (case loadedPosts b slug of
        Some v \<Rightarrow> (FromMemory v, b, ls, [])
      | None \<Rightarrow>
          (let (cached, ls1, evs1) = getFromCache (date_now e) slug ls in
           case cached of
             Some v \<Rightarrow>
               if v \<noteq> [] then (FromStorage v, b\<lparr>loadedPosts := (loadedPosts b)(slug \<mapsto> v)\<rparr>, ls1, evs1)
               else
                 (let (r, b', ls', evs) = loadPost_loop e slug retries 0 b ls1
                  in (r, b', ls', evs1 @ evs))
           | None \<Rightarrow>
               (let (r, b', ls', evs) = loadPost_loop e slug retries 0 b ls1
                in (r, b', ls', evs1 @ evs))))"

definition index_url :: string where
  "index_url = ''posts/index.json''"

definition index_failed :: string where
  "index_failed =
     [CHR 0xD0, CHR 0x9D, CHR 0xD0, CHR 0xB5] @
     '' '' @ [CHR 0xD1, CHR 0x83, CHR 0xD0, CHR 0xB4, CHR 0xD0, CHR 0xB0, CHR 0xD0, CHR 0xBB, CHR 0xD0, CHR 0xBE, CHR 0xD1, CHR 0x81, CHR 0xD1, CHR 0x8C] @
     '' '' @ [CHR 0xD0, CHR 0xB7, CHR 0xD0, CHR 0xB0, CHR 0xD0, CHR 0xB3, CHR 0xD1, CHR 0x80, CHR 0xD1, CHR 0x83, CHR 0xD0, CHR 0xB7, CHR 0xD0, CHR 0xB8, CHR 0xD1, CHR 0x82, CHR 0xD1, CHR 0x8C] @
     '' '' @ [CHR 0xD1, CHR 0x81, CHR 0xD0, CHR 0xBF, CHR 0xD0, CHR 0xB8, CHR 0xD1, CHR 0x81, CHR 0xD0, CHR 0xBE, CHR 0xD0, CHR 0xBA] @
     '' '' @ [CHR 0xD0, CHR 0xBF, CHR 0xD0, CHR 0xBE, CHR 0xD1, CHR 0x81, CHR 0xD1, CHR 0x82, CHR 0xD0, CHR 0xBE, CHR 0xD0, CHR 0xB2]"

text \<open>
  \<^verbatim>\<open>[...this.allPosts]\<close>: the elements of an array, the code points of a string, and a
  \<open>TypeError\<close> for a value that is not iterable.
\<close>

fun spread :: "jsval \<Rightarrow> exn + jsval list" where
  "spread (JArr xs) = Inr xs"
| "spread (JStr s) = Inr (map JStr (code_points s))"
| "spread v = Inl (TypeError ''this.allPosts is not iterable'')"

text \<open>
  \<^verbatim>\<open>new Date(x.date)\<close> as a number, for an element \<open>x\<close> of the array: reading \<open>date\<close> throws
  on \<open>null\<close>; \<open>None\<close> is \<open>NaN\<close>.
\<close>

definition date_value :: "env \<Rightarrow> jsval \<Rightarrow> exn + int option" where
  "date_value e x =
     (case read_prop x ''date'' of
        Inl error \<Rightarrow> Inl error
      | Inr d \<Rightarrow> Inr (Date_ms e d))"

fun date_values :: "env \<Rightarrow> jsval list \<Rightarrow> exn + int option list" where
  "date_values e [] = Inr []"
| "date_values e (x # xs) =
     (case date_value e x of
        Inl error \<Rightarrow> Inl error
      | Inr d \<Rightarrow>
          (case date_values e xs of
             Inl error \<Rightarrow> Inl error
           | Inr ds \<Rightarrow> Inr (d # ds)))"

text \<open>
  \<^verbatim>\<open>this.posts.sort((a, b) => new Date(b.date) - new Date(a.date))\<close>. An array of fewer
  than two elements is left alone, the comparator is not called. Otherwise every element
  is compared with another one, so reading \<open>date\<close> throws when one of them is \<open>null\<close>.
  When all dates are valid the comparator is consistent and the result is the stable sort
  by descending date. A comparison with \<open>NaN\<close> counts as equal: when the valid dates are
  all the same every comparison is equal and the stable sort keeps the order. In what
  remains the comparator is not consistent and the order is the engine's.
\<close>

definition sort_by_date :: "env \<Rightarrow> jsval list \<Rightarrow> exn + jsval list" where
  "sort_by_date e xs =
     (if length xs < 2 then Inr xs
      else
        (case date_values e xs of
           Inl error \<Rightarrow> Inl error
         | Inr ds \<Rightarrow>
             if list_all (\<lambda>d. d \<noteq> None) ds
             then Inr (map snd (sort_key (\<lambda>dx. - the (fst dx)) (zip ds xs)))
             else if length (remdups (filter (\<lambda>d. d \<noteq> None) ds)) \<le> 1 then Inr xs
             else Inr (engine_sort e xs)))"

text \<open>
  The \<^verbatim>\<open>try\<close> block of \<open>loadPosts\<close>: \<open>Inl\<close> is the value thrown into the \<^verbatim>\<open>catch\<close>, \<open>Inr\<close>
  the new \<open>allPosts\<close> and \<open>posts\<close>.
\<close>

definition loadPosts_try :: "env \<Rightarrow> exn + (jsval \<times> jsval list)" where
  "loadPosts_try e =
     (case fetch e 0 index_url of
        Inl error \<Rightarrow> Inl error
      | Inr response \<Rightarrow>
          if \<not> ok response then Inl (Error index_failed)
          else
            (case json_body response of
               Inl error \<Rightarrow> Inl error
             | Inr parsed \<Rightarrow>
                 (case spread parsed of
                    Inl error \<Rightarrow> Inl error
                  | Inr copy \<Rightarrow>
                      (case sort_by_date e copy of
                         Inl error \<Rightarrow> Inl error
                       | Inr by_date \<Rightarrow> Inr (parsed, by_date)))))"

definition loadPosts :: "env \<Rightarrow> blog \<Rightarrow> blog \<times> event list" where
  "loadPosts e b =
     (case loadPosts_try e of
        Inr (parsed, by_date) \<Rightarrow> (b\<lparr>allPosts := parsed, posts := by_date\<rparr>, [Fetch index_url])
      | Inl error \<Rightarrow> (b\<lparr>posts := [], allPosts := JArr []\<rparr>, [Fetch index_url]))"

section \<open>Search (\<^verbatim>\<open>performSearch\<close>, \<^verbatim>\<open>setupSearchPage\<close>)\<close>

text \<open>\<^verbatim>\<open>v.toLowerCase()\<close> on a value: a \<open>TypeError\<close> unless \<open>v\<close> is a string.\<close>

fun method_toLowerCase :: "(string \<Rightarrow> string) \<Rightarrow> jsval \<Rightarrow> exn + string" where
  "method_toLowerCase toLowerCase (JStr s) = Inr (toLowerCase s)"
| "method_toLowerCase toLowerCase JUndefined = Inl (TypeError ''Cannot read properties of undefined'')"
| "method_toLowerCase toLowerCase JNull = Inl (TypeError ''Cannot read properties of null'')"
| "method_toLowerCase toLowerCase v = Inl (TypeError ''toLowerCase is not a function'')"

text \<open>\<^verbatim>\<open>tags.some(tag => tag.toLowerCase().includes(lowerQuery))\<close> on the elements of an array.\<close>

fun tags_some :: "(string \<Rightarrow> string) \<Rightarrow> string \<Rightarrow> jsval list \<Rightarrow> exn + bool" where
  "tags_some toLowerCase lowerQuery [] = Inr False"
| "tags_some toLowerCase lowerQuery (tag # rest) =
     (case method_toLowerCase toLowerCase tag of
        Inl error \<Rightarrow> Inl error
      | Inr l \<Rightarrow>
          if includes_str l lowerQuery then Inr True
          else tags_some toLowerCase lowerQuery rest)"

text \<open>
  The callback of \<open>filter\<close> on one element \<open>post\<close> of the array, with the short circuit of
  \<^verbatim>\<open>||\<close> and \<^verbatim>\<open>&&\<close>.
\<close>

definition post_matches :: "(string \<Rightarrow> string) \<Rightarrow> string \<Rightarrow> jsval \<Rightarrow> exn + bool" where
  "post_matches toLowerCase lowerQuery post =
     (case read_prop post ''title'' of
        Inl error \<Rightarrow> Inl error
      | Inr title \<Rightarrow>
     (case method_toLowerCase toLowerCase title of
        Inl error \<Rightarrow> Inl error
      | Inr t \<Rightarrow>
          if includes_str t lowerQuery then Inr True
          else
     (case read_prop post ''excerpt'' of
        Inl error \<Rightarrow> Inl error
      | Inr excerpt \<Rightarrow>
     (case method_toLowerCase toLowerCase excerpt of
        Inl error \<Rightarrow> Inl error
      | Inr x \<Rightarrow>
          if includes_str x lowerQuery then Inr True
          else
     (case read_prop post ''tags'' of
        Inl error \<Rightarrow> Inl error
      | Inr tags \<Rightarrow>
          if \<not> truthy tags then Inr False
          else
            (case tags of
               JArr ts \<Rightarrow> tags_some toLowerCase lowerQuery ts
             | _ \<Rightarrow> Inl (TypeError ''post.tags.some is not a function'')))))))"

fun filter_posts :: "(string \<Rightarrow> string) \<Rightarrow> string \<Rightarrow> jsval list \<Rightarrow> exn + jsval list" where
  "filter_posts toLowerCase lowerQuery [] = Inr []"
| "filter_posts toLowerCase lowerQuery (p # ps) =
     (case post_matches toLowerCase lowerQuery p of
        Inl error \<Rightarrow> Inl error
      | Inr keep \<Rightarrow>
          (case filter_posts toLowerCase lowerQuery ps of
             Inl error \<Rightarrow> Inl error
           | Inr kept \<Rightarrow> Inr (if keep then p # kept else kept)))"

text \<open>
  \<^verbatim>\<open>performSearch(query)\<close>, given the value of \<open>this.allPosts\<close>: that value itself for a
  blank query, and otherwise the filtered array, or a \<open>TypeError\<close> when the value is not
  an array and so has no \<open>filter\<close>.
\<close>

definition performSearch :: "(string \<Rightarrow> string) \<Rightarrow> string \<Rightarrow> jsval \<Rightarrow> exn + jsval" where
  "performSearch toLowerCase query all =
     (if trim query = [] then Inr all
      else
        (let lowerQuery = toLowerCase query in
         case all of
           JArr ps \<Rightarrow>
             (case filter_posts toLowerCase lowerQuery ps of
                Inl error \<Rightarrow> Inl error
              | Inr kept \<Rightarrow> Inr (JArr kept))
         | JUndefined \<Rightarrow> Inl (TypeError ''Cannot read properties of undefined'')
         | JNull \<Rightarrow> Inl (TypeError ''Cannot read properties of null'')
         | _ \<Rightarrow> Inl (TypeError ''this.allPosts.filter is not a function'')))"

text \<open>
  What \<open>displayResults\<close> puts into the results container. For a query that is not blank
  \<open>results\<close> is the array \<open>filter\<close> has returned, so the last branch is never taken.
\<close>

datatype display = Hint | NothingFound | Results "jsval list"

definition displayResults :: "(string \<Rightarrow> string) \<Rightarrow> string \<Rightarrow> jsval \<Rightarrow> exn + display" where
  "displayResults toLowerCase query all =
     (case performSearch toLowerCase query all of
        Inl error \<Rightarrow> Inl error
      | Inr results \<Rightarrow>
          if trim query = [] then Inr Hint
          else
            (case results of
               JArr rs \<Rightarrow> if rs = [] then Inr NothingFound else Inr (Results rs)
             | _ \<Rightarrow> Inl (TypeError ''results.map is not a function'')))"

text \<open>
  The search page between events: the time of the last event (milliseconds), the value
  of the input element, the pending timer of \<open>searchTimeout\<close> (the time from which it may
  fire; \<open>None\<close> when none is pending), the content of the results container, and the
  calls of \<open>displayResults\<close> made so far, each with its time and its argument.
\<close>

record search_page =
  clock :: nat
  input_value :: string
  searchTimeout :: "nat option"
  searchResults :: display
  evaluated :: "(nat \<times> string) list"

definition show_results ::
  "(string \<Rightarrow> string) \<Rightarrow> nat \<Rightarrow> string \<Rightarrow> jsval \<Rightarrow> search_page \<Rightarrow> search_page" where
  "show_results toLowerCase t query all s =
     s\<lparr>searchResults :=
         (case displayResults toLowerCase query all of Inl error \<Rightarrow> searchResults s | Inr d \<Rightarrow> d),
       evaluated := evaluated s @ [(t, query)]\<rparr>"

text \<open>
  The \<open>input\<close> listener, run at time \<open>t\<close> after the browser has put \<open>v\<close> into the input:
  \<open>clearTimeout\<close>, then \<open>setTimeout\<close> with \<open>DEBOUNCE_DELAY\<close>.
\<close>

definition on_input :: "nat \<Rightarrow> string \<Rightarrow> search_page \<Rightarrow> search_page" where
  "on_input t v s = s\<lparr>clock := t, input_value := v, searchTimeout := Some (t + DEBOUNCE_DELAY)\<rparr>"

text \<open>The \<open>keydown\<close> listener; it leaves a pending timer alone.\<close>

definition on_keydown ::
  "(string \<Rightarrow> string) \<Rightarrow> nat \<Rightarrow> string \<Rightarrow> jsval \<Rightarrow> search_page \<Rightarrow> search_page" where
  "on_keydown toLowerCase t k all s =
     (if k = ''Escape'' then show_results toLowerCase t [] all (s\<lparr>clock := t, input_value := []\<rparr>)
      else s\<lparr>clock := t\<rparr>)"

text \<open>The timer callback: it reads \<open>e.target.value\<close>, the value of the input when it runs.\<close>

definition on_timer :: "(string \<Rightarrow> string) \<Rightarrow> nat \<Rightarrow> jsval \<Rightarrow> search_page \<Rightarrow> search_page" where
  "on_timer toLowerCase t all s =
     show_results toLowerCase t (input_value s) all (s\<lparr>clock := t, searchTimeout := None\<rparr>)"

text \<open>
  The events of the page, with their times. The browser delivers them in time order and
  runs a timer callback only when a timer is pending and its delay has passed; a step
  that breaks this is \<open>None\<close>.
\<close>

datatype ui_event = Input nat string | KeyDown nat string | TimerFires nat

fun step ::
  "(string \<Rightarrow> string) \<Rightarrow> jsval \<Rightarrow> search_page \<Rightarrow> ui_event \<Rightarrow> search_page option" where
  "step toLowerCase all s (Input t v) = (if clock s \<le> t then Some (on_input t v s) else None)"
| "step toLowerCase all s (KeyDown t k) =
     (if clock s \<le> t then Some (on_keydown toLowerCase t k all s) else None)"
| "step toLowerCase all s (TimerFires t) =
     (case searchTimeout s of
        None \<Rightarrow> None
      | Some due \<Rightarrow>
          if clock s \<le> t \<and> due \<le> t then Some (on_timer toLowerCase t all s) else None)"

fun run ::
  "(string \<Rightarrow> string) \<Rightarrow> jsval \<Rightarrow> search_page \<Rightarrow> ui_event list \<Rightarrow> search_page option" where
  "run toLowerCase all s [] = Some s"
| "run toLowerCase all s (ev # evs) =
     (case step toLowerCase all s ev of None \<Rightarrow> None | Some s' \<Rightarrow> run toLowerCase all s' evs)"

section \<open>Navigation (\<^verbatim>\<open>navigateTo\<close>, the \<open>popstate\<close> listener, \<^verbatim>\<open>render\<close>)\<close>

text \<open>
  The branch \<^verbatim>\<open>render\<close> takes in its \<^verbatim>\<open>switch\<close>: which of \<open>renderPostsList\<close>,
  \<open>renderPost(currentSlug)\<close>, \<open>renderSearch\<close> and \<open>renderContacts\<close> computes the content.
\<close>

datatype page = PostsList | PostView "string option" | SearchView | ContactsView

definition render_page :: "string \<Rightarrow> string option \<Rightarrow> page" where
  "render_page view sl =
     (if view = ''home'' then PostsList
      else if view = ''post'' then PostView sl
      else if view = ''search'' then SearchView
      else if view = ''contacts'' then ContactsView
      else PostsList)"

text \<open>
  The session history of the browser: the entries, each with the state object given to
  \<open>pushState\<close> (\<open>None\<close> for an entry the page did not push) and its URL, and the position
  of the current entry.
\<close>

type_synonym nav_pair = "string \<times> string option"

record history =
  entries :: "(nav_pair option \<times> string) list"
  position :: nat

datatype nav_event =
    ToggleActive string
  | PushState nav_pair string
  | UpdatePageMeta
  | Render page

text \<open>\<open>history.pushState\<close>: the entries after the current one are dropped, the new one is appended.\<close>

definition pushState :: "nav_pair \<Rightarrow> string \<Rightarrow> history \<Rightarrow> history" where
  "pushState st url h =
     \<lparr>entries = take (position h + 1) (entries h) @ [(Some st, url)], position = position h + 1\<rparr>"

definition nav_url :: "string \<Rightarrow> string option \<Rightarrow> string" where
  "nav_url view sl =
     (case sl of
        Some s \<Rightarrow> if s \<noteq> [] then ''#'' @ s else if view = ''home'' then ''#'' else ''#'' @ view
      | None \<Rightarrow> if view = ''home'' then ''#'' else ''#'' @ view)"

definition navigateTo :: "string \<Rightarrow> string option \<Rightarrow> bool \<Rightarrow> blog \<times> history \<Rightarrow> (blog \<times> history) \<times> nav_event list" where
  "navigateTo view sl push bh =
     (let b' = (fst bh)\<lparr>currentView := view, currentSlug := sl\<rparr>;
          url = nav_url view sl;
          h' = (if push then pushState (view, sl) url (snd bh) else snd bh)
      in ((b', h'),
          [ToggleActive view] @ (if push then [PushState (view, sl) url] else []) @
          [UpdatePageMeta, Render (render_page view sl)]))"

text \<open>The \<open>popstate\<close> listener, given \<open>e.state\<close>.\<close>

definition on_popstate :: "nav_pair option \<Rightarrow> blog \<Rightarrow> blog \<times> nav_event list" where
  "on_popstate st b =
     (case st of
        None \<Rightarrow> (b, [])
      | Some (view, sl) \<Rightarrow>
          (b\<lparr>currentView := view, currentSlug := sl\<rparr>, [Render (render_page view sl), UpdatePageMeta]))"

text \<open>
  The back and forward buttons of the browser: the position moves by one entry, when
  there is one, and \<open>popstate\<close> is delivered with the state of the entry reached.
\<close>

definition go_back :: "blog \<times> history \<Rightarrow> (blog \<times> history) \<times> nav_event list" where
  "go_back bh =
     (let h = snd bh in
      if position h = 0 \<or> length (entries h) < position h then (bh, [])
      else
        (let h' = h\<lparr>position := position h - 1\<rparr>;
             (b', evs) = on_popstate (fst (entries h ! (position h - 1))) (fst bh)
         in ((b', h'), evs)))"

definition go_forward :: "blog \<times> history \<Rightarrow> (blog \<times> history) \<times> nav_event list" where
  "go_forward bh =
     (let h = snd bh in
      if length (entries h) \<le> position h + 1 then (bh, [])
      else
        (let h' = h\<lparr>position := position h + 1\<rparr>;
             (b', evs) = on_popstate (fst (entries h ! (position h + 1))) (fst bh)
         in ((b', h'), evs)))"

section \<open>Language (\<^verbatim>\<open>LanguageManager\<close> in features/language.js)\<close>

text \<open>
  The manager and what it writes: \<open>currentLang\<close>, the value under the key \<open>language\<close> of
  \<open>localStorage\<close>, \<open>document.documentElement.lang\<close>, and the number of page reloads asked
  for.
\<close>

record language_manager =
  currentLang :: string
  stored_language :: "string option"
  document_lang :: string
  reloads :: nat

definition getLanguage :: "language_manager \<Rightarrow> string" where
  "getLanguage m = currentLang m"

text \<open>
  \<^verbatim>\<open>setLanguage(lang)\<close>; \<open>throws\<close> says whether \<open>localStorage.setItem\<close> throws, and the
  second component is the exception that leaves the method, if any.
\<close>

definition setLanguage :: "bool \<Rightarrow> string \<Rightarrow> language_manager \<Rightarrow> language_manager \<times> exn option" where
  "setLanguage throws lang m =
     (if currentLang m = lang then (m, None)
      else
        (let m1 = m\<lparr>currentLang := lang\<rparr> in
         if throws then (m1, Some (DOMException ''QuotaExceededError''))
         else
           (m1\<lparr>stored_language := Some lang,
               document_lang := (if lang = ''ru'' then ''ru'' else ''en''),
               reloads := reloads m1 + 1\<rparr>, None)))"

definition toggleLanguage :: "bool \<Rightarrow> language_manager \<Rightarrow> language_manager \<times> exn option" where
  "toggleLanguage throws m =
     (let newLang = (if currentLang m = ''ru'' then ''en'' else ''ru'') in setLanguage throws newLang m)"

section \<open>Observations and sample inputs\<close>

text \<open>The events of a call of \<open>loadPost\<close>, its suspensions and the URLs it fetched.\<close>

definition events_of :: "load_result \<times> blog \<times> storage \<times> event list \<Rightarrow> event list" where
  "events_of x = snd (snd (snd x))"

fun delays_of :: "event list \<Rightarrow> nat list" where
  "delays_of [] = []"
| "delays_of (Delay d # evs) = d # delays_of evs"
| "delays_of (ev # evs) = delays_of evs"

fun fetches_of :: "event list \<Rightarrow> string list" where
  "fetches_of [] = []"
| "fetches_of (Fetch u # evs) = u # fetches_of evs"
| "fetches_of (ev # evs) = fetches_of evs"

text \<open>A fetch that fails: the promise is rejected, or the response is not \<open>ok\<close>.\<close>

fun fetch_fails :: "exn + response \<Rightarrow> bool" where
  "fetch_fails (Inl error) = True"
| "fetch_fails (Inr r) = (\<not> ok r)"

text \<open>
  \<^verbatim>\<open>new Date(x)\<close> as a number, on the values used below: the two dates of the sample
  index, numbers, \<open>null\<close> and booleans; \<open>undefined\<close> gives an invalid date.
\<close>

fun sample_date :: "jsval \<Rightarrow> int option" where
  "sample_date (JStr s) =
     (if s = ''2024-01-01'' then Some 1704067200000
      else if s = ''2024-02-01'' then Some 1706745600000
      else None)"
| "sample_date (JNum n) = Some n"
| "sample_date JNull = Some 0"
| "sample_date (JBool b) = Some (if b then 1 else 0)"
| "sample_date v = None"

text \<open>A browser without network, and a Blog that has loaded nothing yet.\<close>

definition offline :: env where
  "offline =
     \<lparr>date_now = 0, fetch = (\<lambda>i url. Inl (TypeError ''Failed to fetch'')), marked = None,
      date_now_after = (\<lambda>i. 0), setItem_throws = False, Date_ms = sample_date,
      engine_sort = (\<lambda>xs. xs)\<rparr>"

definition fresh_blog :: blog where
  "fresh_blog =
     \<lparr>posts = [], allPosts = JArr [], currentView = ''home'', currentSlug = None,
      loadedPosts = Map.empty\<rparr>"

text \<open>
  The click listener \<^verbatim>\<open>render\<close> puts on the element of class \<open>back-button\<close>:
  \<^verbatim>\<open>this.navigateTo('home')\<close>.
\<close>

definition back_button_click :: "blog \<times> history \<Rightarrow> (blog \<times> history) \<times> nav_event list" where
  "back_button_click bh = navigateTo ''home'' None True bh"

text \<open>A browser that answers every fetch with status 404.\<close>

definition not_found :: env where
  "not_found =
     \<lparr>date_now = 0,
      fetch = (\<lambda>i url. Inr \<lparr>ok = False, status = 404, text_body = Inr [], json_body = Inr JNull\<rparr>),
      marked = Some (\<lambda>md. Inr md), date_now_after = (\<lambda>i. 0), setItem_throws = False,
      Date_ms = sample_date, engine_sort = (\<lambda>xs. xs)\<rparr>"

text \<open>
  A browser that serves the post: every fetch gives the markdown \<open># Hi\<close>, which the
  converter turns into a heading; the clock reads 5000 at the start and 5200 when the
  markup is saved.
\<close>

definition online :: env where
  "online =
     \<lparr>date_now = 5000,
      fetch = (\<lambda>i url. Inr \<lparr>ok = True, status = 200, text_body = Inr ''# Hi'', json_body = Inr JNull\<rparr>),
      marked = Some (\<lambda>md. Inr ''<h1>Hi</h1>''), date_now_after = (\<lambda>i. 5200),
      setItem_throws = False, Date_ms = sample_date, engine_sort = (\<lambda>xs. xs)\<rparr>"

text \<open>A store holding one entry for the slug \<open>a\<close>, written at time 1000.\<close>

definition old_store :: storage where
  "old_store = [cache_key ''a'' \<mapsto> Parsed ''<p>old</p>'' 1000]"

text \<open>
  \<open>String.prototype.toLowerCase\<close> on ASCII text: the letters \<open>A\<close> to \<open>Z\<close> become \<open>a\<close> to
  \<open>z\<close>, every other character stays.
\<close>

definition lower_char :: "char \<Rightarrow> char" where
  "lower_char c =
     (case map_of (zip ''ABCDEFGHIJKLMNOPQRSTUVWXYZ'' ''abcdefghijklmnopqrstuvwxyz'') c of
        None \<Rightarrow> c
      | Some l \<Rightarrow> l)"

definition toLowerCase_ascii :: "string \<Rightarrow> string" where
  "toLowerCase_ascii s = map lower_char s"

text \<open>
  The Greek capital sigma U+03A3, the small sigma U+03C3 and the final sigma U+03C2, and
  the values of \<open>String.prototype.toLowerCase\<close> on the strings it is applied to below:
  ASCII text and two strings with a sigma. Lower-casing follows the special casing of
  Unicode (its rule \<open>Final_Sigma\<close>), as ECMAScript prescribes: a capital sigma that ends
  a word becomes the final sigma, so in \<open>A\<close> followed by a capital sigma, and a capital
  sigma alone becomes the small sigma. \<open>toLowerCase_sample\<close> is applied to no other
  string.
\<close>

definition capital_sigma :: string where
  "capital_sigma = [CHR 0xCE, CHR 0xA3]"

definition small_sigma :: string where
  "small_sigma = [CHR 0xCF, CHR 0x83]"

definition final_sigma :: string where
  "final_sigma = [CHR 0xCF, CHR 0x82]"

definition toLowerCase_sample :: "string \<Rightarrow> string" where
  "toLowerCase_sample s =
     (if s = ''A'' @ capital_sigma then ''a'' @ final_sigma
      else if s = capital_sigma then small_sigma
      else toLowerCase_ascii s)"

section \<open>The search claims in their own words\<close>

text \<open>
  A post summary as the index is meant to hold it: an object whose \<open>title\<close> and \<open>excerpt\<close>
  are strings and whose \<open>tags\<close> is missing (or another falsy value) or an array of
  strings.
\<close>

fun field_of :: "jsval \<Rightarrow> string \<Rightarrow> jsval" where
  "field_of (JObj kvs) name = (case map_of kvs name of None \<Rightarrow> JUndefined | Some v \<Rightarrow> v)"
| "field_of v name = JUndefined"

fun is_object :: "jsval \<Rightarrow> bool" where
  "is_object (JObj kvs) = True"
| "is_object v = False"

fun is_string :: "jsval \<Rightarrow> bool" where
  "is_string (JStr s) = True"
| "is_string v = False"

fun tags_ok :: "jsval \<Rightarrow> bool" where
  "tags_ok (JArr ts) = list_all is_string ts"
| "tags_ok v = (\<not> truthy v)"

definition summary_ok :: "jsval \<Rightarrow> bool" where
  "summary_ok p =
     (is_object p \<and> is_string (field_of p ''title'') \<and> is_string (field_of p ''excerpt'') \<and>
      tags_ok (field_of p ''tags''))"

fun str_of :: "jsval \<Rightarrow> string" where
  "str_of (JStr s) = s"
| "str_of v = []"

fun tag_strings :: "jsval \<Rightarrow> string list" where
  "tag_strings (JArr ts) = map str_of ts"
| "tag_strings v = []"

text \<open>
  An empty or whitespace-only query: nothing but white space characters, one after the
  other.
\<close>

definition blank :: "string \<Rightarrow> bool" where
  "blank q = (\<exists>ts. set ts \<subseteq> set white_space \<and> q = concat ts)"

text \<open>
  What the code tests on a summary: the lower-cased title, excerpt or one of the tags
  includes the lower-cased query.
\<close>

definition lowered_includes :: "(string \<Rightarrow> string) \<Rightarrow> string \<Rightarrow> jsval \<Rightarrow> bool" where
  "lowered_includes toLowerCase q p =
     (includes_str (toLowerCase (str_of (field_of p ''title''))) (toLowerCase q) \<or>
      includes_str (toLowerCase (str_of (field_of p ''excerpt''))) (toLowerCase q) \<or>
      (\<exists>t \<in> set (tag_strings (field_of p ''tags'')). includes_str (toLowerCase t) (toLowerCase q)))"

text \<open>
  ASCII text, and what the claim says of it. Two characters are the same letter when
  they are equal, or one is a capital letter (code 65 to 90) and the other the small
  letter 32 places further on. \<open>s\<close> contains \<open>q\<close> as a case-insensitive substring when some
  stretch of \<open>s\<close> is \<open>q\<close>, letter by letter, up to case.
\<close>

definition ascii_text :: "string \<Rightarrow> bool" where
  "ascii_text s = list_all (\<lambda>c. (of_char c :: nat) < 128) s"

definition is_capital :: "char \<Rightarrow> bool" where
  "is_capital c = (65 \<le> (of_char c :: nat) \<and> (of_char c :: nat) \<le> 90)"

definition same_letter :: "char \<Rightarrow> char \<Rightarrow> bool" where
  "same_letter c d =
     (c = d \<or>
      (is_capital c \<and> (of_char d :: nat) = of_char c + 32) \<or>
      (is_capital d \<and> (of_char c :: nat) = of_char d + 32))"

definition same_ignoring_case :: "string \<Rightarrow> string \<Rightarrow> bool" where
  "same_ignoring_case a b = list_all2 same_letter a b"

definition contains_ignoring_case :: "string \<Rightarrow> string \<Rightarrow> bool" where
  "contains_ignoring_case s q = (\<exists>u m v. s = u @ m @ v \<and> same_ignoring_case m q)"

definition summary_matches :: "string \<Rightarrow> jsval \<Rightarrow> bool" where
  "summary_matches q p =
     (contains_ignoring_case (str_of (field_of p ''title'')) q \<or>
      contains_ignoring_case (str_of (field_of p ''excerpt'')) q \<or>
      (\<exists>t \<in> set (tag_strings (field_of p ''tags'')). contains_ignoring_case t q))"

definition ascii_summary :: "jsval \<Rightarrow> bool" where
  "ascii_summary p =
     (ascii_text (str_of (field_of p ''title'')) \<and> ascii_text (str_of (field_of p ''excerpt'')) \<and>
      list_all ascii_text (tag_strings (field_of p ''tags'')))"

text \<open>The lower-casing of the platform is the ASCII one on ASCII text.\<close>

definition lowers_ascii :: "(string \<Rightarrow> string) \<Rightarrow> bool" where
  "lowers_ascii toLowerCase = (\<forall>s. ascii_text s \<longrightarrow> toLowerCase s = toLowerCase_ascii s)"

text \<open>
  The index of the example in the specification, a summary with tags, and a summary
  whose title is \<open>A\<close> followed by a capital sigma.
\<close>

definition hi_post :: jsval where
  "hi_post =
     JObj [(''slug'', JStr ''hi''), (''title'', JStr ''Hello''), (''excerpt'', JStr ''world''),
           (''date'', JStr ''2024-01-01'')]"

definition tagged_post :: jsval where
  "tagged_post =
     JObj [(''slug'', JStr ''t''), (''title'', JStr ''Notes''), (''excerpt'', JStr ''short''),
           (''date'', JStr ''2024-02-01''), (''tags'', JArr [JStr ''Web'', JStr ''JS''])]"

definition sigma_post :: jsval where
  "sigma_post =
     JObj [(''slug'', JStr ''s''), (''title'', JStr (''A'' @ capital_sigma)),
           (''excerpt'', JStr ''greek''), (''date'', JStr ''2024-02-01'')]"

section \<open>The index and navigation claims in their own words\<close>






text \<open>A browser that is served the JSON value \<open>v\<close> as the index.\<close>

definition serving :: "jsval \<Rightarrow> env" where
  "serving v =
     \<lparr>date_now = 0,
      fetch = (\<lambda>i url. Inr \<lparr>ok = True, status = 200, text_body = Inr [], json_body = Inr v\<rparr>),
      marked = None, date_now_after = (\<lambda>i. 0), setItem_throws = False,
      Date_ms = sample_date, engine_sort = (\<lambda>xs. xs)\<rparr>"

text \<open>The history of a page just opened: one entry, which the page did not push.\<close>

definition opened :: history where
  "opened = \<lparr>entries = [(None, [])], position = 0\<rparr>"

section \<open>The debounce claim in its own words\<close>

text \<open>
  Keystrokes, each with its time and the value the input has after it, as the \<open>input\<close>
  events they raise; and a run of keystrokes in which each comes less than
  \<open>DEBOUNCE_DELAY\<close> after the one before.
\<close>

definition keystrokes :: "(nat \<times> string) list \<Rightarrow> ui_event list" where
  "keystrokes ks = map (\<lambda>k. Input (fst k) (snd k)) ks"

fun within_delay :: "(nat \<times> string) list \<Rightarrow> bool" where
  "within_delay [] = True"
| "within_delay [k] = True"
| "within_delay (k # k' # ks) =
     (fst k \<le> fst k' \<and> fst k' < fst k + DEBOUNCE_DELAY \<and> within_delay (k' # ks))"

text \<open>The search page as \<open>renderSearch\<close> leaves it: empty input, the hint, no timer.\<close>

definition search_opened :: search_page where
  "search_opened =
     \<lparr>clock = 0, input_value = [], searchTimeout = None, searchResults = Hint, evaluated = []\<rparr>"

section \<open>Properties\<close>

subsection \<open>The retry loop, one iteration at a time\<close>

lemma attempt_fetch_fails:
  "fetch_fails (fetch e i (post_url slug)) \<Longrightarrow> \<exists>err. attempt e i slug = Inl err"
  by (cases "fetch e i (post_url slug)") (auto simp: attempt_def)

lemma loop_fail_last:
  assumes "attempt e i slug = Inl err" "Suc i = retries"
  shows "loadPost_loop e slug retries i b ls =
    (Failed (error_fragment (message err)), b, ls, [Fetch (post_url slug)])"
  using assms by (subst loadPost_loop.simps) auto

lemma loop_fail_more:
  assumes "attempt e i slug = Inl err" "Suc i < retries"
  shows "loadPost_loop e slug retries i b ls =
    (case loadPost_loop e slug retries (Suc i) b ls of
       (r, b', ls', evs) \<Rightarrow>
         (r, b', ls', Fetch (post_url slug) # Delay (RETRY_DELAY_BASE * Suc i) # evs))"
  using assms by (subst loadPost_loop.simps) auto

lemma loop_success:
  assumes "attempt e i slug = Inr html" "i < retries"
  shows "loadPost_loop e slug retries i b ls =
    (FromNetwork html, b\<lparr>loadedPosts := (loadedPosts b)(slug \<mapsto> html)\<rparr>,
     fst (saveToCache (setItem_throws e) (date_now_after e i) slug html ls),
     [Fetch (post_url slug), SetItem (cache_key slug)])"
  using assms by (subst loadPost_loop.simps) (auto simp: saveToCache_def Let_def)

lemma loop_three_failures:
  assumes "attempt e 0 slug = Inl e0"
      and "attempt e (Suc 0) slug = Inl e1"
      and "attempt e (Suc (Suc 0)) slug = Inl e2"
  shows "loadPost_loop e slug (Suc (Suc (Suc 0))) 0 b ls =
    (Failed (error_fragment (message e2)), b, ls,
      [Fetch (post_url slug), Delay 1000, Fetch (post_url slug), Delay 2000, Fetch (post_url slug)])"
  by (simp add: loop_fail_more [OF assms(1)] loop_fail_more [OF assms(2)]
      loop_fail_last [OF assms(3)] RETRY_DELAY_BASE_def)

lemma loadPost_uncached:
  assumes "loadedPosts b slug = None" "ls (cache_key slug) = None"
  shows "loadPost e slug retries b ls =
    (case loadPost_loop e slug retries 0 b ls of
       (r, b', ls', evs) \<Rightarrow> (r, b', ls', GetItem (cache_key slug) # evs))"
  using assms by (simp add: loadPost_def getFromCache_def Let_def)

subsection \<open>C1: three failed attempts\<close>

text \<open>
  C1, as the code has it. For a slug that is in neither cache, a call of \<open>loadPost\<close> whose
  fetch fails on every attempt fetches exactly three times, suspends for 1000 ms after
  the first failure and for 2000 ms after the second, does not suspend after the third,
  and returns the error fragment built from the message of the third error; both caches
  are left as they were.
\<close>

theorem loadPost_retries_then_error_fragment:
  assumes "loadedPosts b slug = None"
      and "ls (cache_key slug) = None"
      and "\<forall>i<MAX_RETRIES. fetch_fails (fetch e i (post_url slug))"
  shows "\<exists>err. attempt e (MAX_RETRIES - 1) slug = Inl err \<and>
           loadPost e slug MAX_RETRIES b ls =
             (Failed (error_fragment (message err)), b, ls,
              [GetItem (cache_key slug),
               Fetch (post_url slug), Delay 1000,
               Fetch (post_url slug), Delay 2000,
               Fetch (post_url slug)])"
proof -
  have three: "MAX_RETRIES = Suc (Suc (Suc 0))"
    by (simp add: MAX_RETRIES_def)
  obtain e0 where a0: "attempt e 0 slug = Inl e0"
    using assms(3) attempt_fetch_fails [of e 0 slug] by (auto simp: three)
  obtain e1 where a1: "attempt e (Suc 0) slug = Inl e1"
    using assms(3) attempt_fetch_fails [of e "Suc 0" slug] by (auto simp: three)
  obtain e2 where a2: "attempt e (Suc (Suc 0)) slug = Inl e2"
    using assms(3) attempt_fetch_fails [of e "Suc (Suc 0)" slug] by (auto simp: three)
  show ?thesis
    using a2 assms(1,2)
    by (simp add: three loadPost_uncached [of b slug ls] loop_three_failures [OF a0 a1 a2])
qed

text \<open>The theorem at the offline browser: its hypotheses hold there, and it gives the result.\<close>

theorem loadPost_retries_then_error_fragment_witness:
  "loadedPosts fresh_blog ''a'' = None \<and>
   (Map.empty :: storage) (cache_key ''a'') = None \<and>
   fetch_fails (fetch offline 0 (post_url ''a'')) \<and>
   fetch_fails (fetch offline 1 (post_url ''a'')) \<and>
   fetch_fails (fetch offline 2 (post_url ''a'')) \<and>
   loadPost offline ''a'' MAX_RETRIES fresh_blog Map.empty =
     (Failed (error_fragment ''Failed to fetch''), fresh_blog, Map.empty,
      [GetItem (cache_key ''a''),
       Fetch (post_url ''a''), Delay 1000,
       Fetch (post_url ''a''), Delay 2000,
       Fetch (post_url ''a'')])"
proof -
  have h1: "loadedPosts fresh_blog ''a'' = None"
    by (simp add: fresh_blog_def)
  have h2: "(Map.empty :: storage) (cache_key ''a'') = None"
    by simp
  have h3: "\<forall>i<MAX_RETRIES. fetch_fails (fetch offline i (post_url ''a''))"
    by (simp add: offline_def)
  have att: "attempt offline (MAX_RETRIES - 1) ''a'' = Inl (TypeError ''Failed to fetch'')"
    by (simp add: attempt_def offline_def)
  have h4: "fetch_fails (fetch offline i (post_url ''a''))" for i
    by (simp add: offline_def)
  from loadPost_retries_then_error_fragment [OF h1 h2 h3] att h1 h2 h4
  show ?thesis by auto
qed

text \<open>
  C1 as stated asks for a third suspension, of 3000 ms. At the offline browser every
  fetch of the uncached slug fails, and the suspensions are 1000 ms and 2000 ms only.
\<close>

theorem loadPost_no_third_delay_counterexample:
  "loadedPosts fresh_blog ''a'' = None \<and>
   (Map.empty :: storage) (cache_key ''a'') = None \<and>
   fetch_fails (fetch offline 0 (post_url ''a'')) \<and>
   fetch_fails (fetch offline 1 (post_url ''a'')) \<and>
   fetch_fails (fetch offline 2 (post_url ''a'')) \<and>
   length (fetches_of (events_of (loadPost offline ''a'' MAX_RETRIES fresh_blog Map.empty))) = 3 \<and>
   delays_of (events_of (loadPost offline ''a'' MAX_RETRIES fresh_blog Map.empty)) = [1000, 2000] \<and>
   delays_of (events_of (loadPost offline ''a'' MAX_RETRIES fresh_blog Map.empty)) \<noteq> [1000, 2000, 3000]"
  by (simp add: loadPost_def getFromCache_def Let_def events_of_def loadPost_loop.simps
      attempt_def offline_def fresh_blog_def MAX_RETRIES_def RETRY_DELAY_BASE_def)

subsection \<open>C2: every call returns markup\<close>

lemma fragment_embeds_message: "sublist msg (error_fragment msg)"
  by (auto simp: error_fragment_def sublist_def)

lemma fragment_has_back_control: "sublist back_control (error_fragment msg)"
proof -
  have "error_fragment msg =
      (error_fragment_head @ msg @ error_fragment_mid) @ back_control @ error_fragment_end"
    by (simp add: error_fragment_def error_fragment_tail_def)
  then show ?thesis
    unfolding sublist_def by blast
qed

lemma back_button_click_lists:
  "snd (back_button_click bh) =
     [ToggleActive ''home'', PushState (''home'', None) ''#'', UpdatePageMeta, Render PostsList]"
  by (simp add: back_button_click_def navigateTo_def Let_def render_page_def nav_url_def)

lemma loop_outcome:
  assumes "i < retries"
  shows "(\<exists>html j. i \<le> j \<and> j < retries \<and> attempt e j slug = Inr html \<and>
            fst (loadPost_loop e slug retries i b ls) = FromNetwork html \<and>
            loadedPosts (fst (snd (loadPost_loop e slug retries i b ls))) slug = Some html) \<or>
         (\<exists>err. attempt e (retries - 1) slug = Inl err \<and>
            fst (loadPost_loop e slug retries i b ls) = Failed (error_fragment (message err)))"
  using assms
proof (induction e slug retries i b ls rule: loadPost_loop.induct)
  case (1 e slug retries i b ls)
  show ?case
  proof (cases "attempt e i slug")
    case (Inr html)
    then show ?thesis
      using "1.prems" by (auto simp: loop_success)
  next
    case (Inl err)
    show ?thesis
    proof (cases "Suc i = retries")
      case True
      then show ?thesis
        using Inl by (auto simp: loop_fail_last [OF Inl True])
    next
      case False
      then have more: "Suc i < retries"
        using "1.prems" by simp
      have "i \<noteq> retries - 1"
        using more by simp
      from "1.IH" [OF "1.prems" Inl refl this refl] more
      have IH: "(\<exists>html j. Suc i \<le> j \<and> j < retries \<and> attempt e j slug = Inr html \<and>
            fst (loadPost_loop e slug retries (Suc i) b ls) = FromNetwork html \<and>
            loadedPosts (fst (snd (loadPost_loop e slug retries (Suc i) b ls))) slug = Some html) \<or>
         (\<exists>err. attempt e (retries - 1) slug = Inl err \<and>
            fst (loadPost_loop e slug retries (Suc i) b ls) = Failed (error_fragment (message err)))"
        by simp
      then show ?thesis
      proof
        assume "\<exists>html j. Suc i \<le> j \<and> j < retries \<and> attempt e j slug = Inr html \<and>
            fst (loadPost_loop e slug retries (Suc i) b ls) = FromNetwork html \<and>
            loadedPosts (fst (snd (loadPost_loop e slug retries (Suc i) b ls))) slug = Some html"
        then obtain html j where j: "Suc i \<le> j" "j < retries" "attempt e j slug = Inr html"
          "fst (loadPost_loop e slug retries (Suc i) b ls) = FromNetwork html"
          "loadedPosts (fst (snd (loadPost_loop e slug retries (Suc i) b ls))) slug = Some html"
          by blast
        have "i \<le> j" using j(1) by simp
        with j show ?thesis
          by (auto simp: loop_fail_more [OF Inl more] split: prod.splits)
      next
        assume "\<exists>err. attempt e (retries - 1) slug = Inl err \<and>
            fst (loadPost_loop e slug retries (Suc i) b ls) = Failed (error_fragment (message err))"
        then show ?thesis
          by (auto simp: loop_fail_more [OF Inl more] split: prod.splits)
      qed
    qed
  qed
qed

lemma loadPost_outcome:
  assumes "0 < retries"
  shows "(\<exists>v. fst (loadPost e slug retries b ls) = FromMemory v \<and> loadedPosts b slug = Some v) \<or>
         (\<exists>v. fst (loadPost e slug retries b ls) = FromStorage v \<and>
              fst (getFromCache (date_now e) slug ls) = Some v) \<or>
         (\<exists>html j. j < retries \<and> attempt e j slug = Inr html \<and>
              fst (loadPost e slug retries b ls) = FromNetwork html) \<or>
         (\<exists>err. attempt e (retries - 1) slug = Inl err \<and>
              fst (loadPost e slug retries b ls) = Failed (error_fragment (message err)))"
proof (cases "loadedPosts b slug")
  case (Some v)
  then show ?thesis by (simp add: loadPost_def)
next
  case None
  obtain cached ls1 evs1 where g: "getFromCache (date_now e) slug ls = (cached, ls1, evs1)"
    by (cases "getFromCache (date_now e) slug ls") auto
  show ?thesis
  proof (cases "\<exists>v. cached = Some v \<and> v \<noteq> []")
    case True
    then show ?thesis using None g by (auto simp: loadPost_def)
  next
    case False
    then have eq: "loadPost e slug retries b ls =
      (case loadPost_loop e slug retries 0 b ls1 of (r, b', ls', evs) \<Rightarrow> (r, b', ls', evs1 @ evs))"
      using None g by (auto simp: loadPost_def split: option.splits)
    from loop_outcome [OF assms, of e slug b ls1] show ?thesis
      by (auto simp: eq split: prod.splits)
  qed
qed

text \<open>
  C2. Whatever the network, the persistent cache and the converter do, a call of
  \<open>loadPost\<close> with the default number of retries returns through one of its \<^verbatim>\<open>return\<close>
  statements, never by falling out of the loop and never by an exception: every statement
  that can throw stands in a \<^verbatim>\<open>try\<close> block whose handler returns. The value is the entry of
  the memory cache, or the payload read from the persistent cache, or the markup the
  converter made of a fetched text, or else the error fragment, which is built from the
  message of the error of the last attempt, contains that message, and contains the link
  of class \<open>back-button\<close>, whose click navigates to the listing.
\<close>

theorem loadPost_always_resolves:
  "(\<exists>v. fst (loadPost e slug MAX_RETRIES b ls) = FromMemory v \<and> loadedPosts b slug = Some v) \<or>
   (\<exists>v. fst (loadPost e slug MAX_RETRIES b ls) = FromStorage v \<and>
        fst (getFromCache (date_now e) slug ls) = Some v) \<or>
   (\<exists>html j. j < MAX_RETRIES \<and> attempt e j slug = Inr html \<and>
        fst (loadPost e slug MAX_RETRIES b ls) = FromNetwork html) \<or>
   (\<exists>err. attempt e (MAX_RETRIES - 1) slug = Inl err \<and>
        fst (loadPost e slug MAX_RETRIES b ls) = Failed (error_fragment (message err)) \<and>
        sublist (message err) (error_fragment (message err)) \<and>
        sublist back_control (error_fragment (message err)) \<and>
        snd (back_button_click bh) =
          [ToggleActive ''home'', PushState (''home'', None) ''#'', UpdatePageMeta, Render PostsList])"
proof -
  have "0 < MAX_RETRIES" by (simp add: MAX_RETRIES_def)
  from loadPost_outcome [OF this, of e slug b ls] show ?thesis
    using fragment_embeds_message fragment_has_back_control back_button_click_lists by blast
qed

text \<open>The theorem at a browser that answers 404 three times.\<close>

theorem loadPost_always_resolves_witness:
  "fst (loadPost not_found ''a'' MAX_RETRIES fresh_blog Map.empty) =
     Failed (error_fragment ''HTTP 404'') \<and>
   attempt not_found (MAX_RETRIES - 1) ''a'' = Inl (Error ''HTTP 404'') \<and>
   sublist ''HTTP 404'' (error_fragment ''HTTP 404'') \<and>
   sublist back_control (error_fragment ''HTTP 404'')"
proof -
  have digits: "string_of_nat 404 = ''404''"
    by (simp add: string_of_nat.simps)
  have att: "attempt not_found i ''a'' = Inl (Error ''HTTP 404'')" for i
    by (simp add: attempt_def not_found_def digits)
  have m: "loadedPosts fresh_blog ''a'' = None"
    by (simp add: fresh_blog_def)
  have "loadPost_loop not_found ''a'' (Suc (Suc (Suc 0))) 0 fresh_blog Map.empty =
    (Failed (error_fragment (message (Error ''HTTP 404''))), fresh_blog, Map.empty,
      [Fetch (post_url ''a''), Delay 1000, Fetch (post_url ''a''), Delay 2000, Fetch (post_url ''a'')])"
    by (rule loop_three_failures [OF att att att])
  then have res: "fst (loadPost not_found ''a'' MAX_RETRIES fresh_blog Map.empty) =
     Failed (error_fragment ''HTTP 404'')"
    using m by (simp add: loadPost_uncached MAX_RETRIES_def numeral_3_eq_3)
  from loadPost_always_resolves [of not_found "''a''" fresh_blog Map.empty] res att [of "MAX_RETRIES - 1"]
  show ?thesis by auto
qed

subsection \<open>C3: a loaded post is served from memory\<close>

lemma loadPost_loaded_in_memory:
  assumes "loadPost e slug retries b ls = (r, b1, ls1, evs1)" "loaded r"
  shows "\<exists>v. returned r = Some v \<and> loadedPosts b1 slug = Some v"
proof (cases "loadedPosts b slug")
  case (Some v)
  then show ?thesis using assms by (auto simp: loadPost_def)
next
  case None
  obtain cached ls0 evs0 where g: "getFromCache (date_now e) slug ls = (cached, ls0, evs0)"
    by (cases "getFromCache (date_now e) slug ls") auto
  show ?thesis
  proof (cases "\<exists>v. cached = Some v \<and> v \<noteq> []")
    case True
    then show ?thesis using None g assms by (auto simp: loadPost_def)
  next
    case False
    then have eq: "loadPost e slug retries b ls =
      (case loadPost_loop e slug retries 0 b ls0 of (r, b', ls', evs) \<Rightarrow> (r, b', ls', evs0 @ evs))"
      using None g by (auto simp: loadPost_def split: option.splits)
    have pos: "0 < retries"
    proof (rule ccontr)
      assume "\<not> 0 < retries"
      then have "loadPost_loop e slug retries 0 b ls0 = (NoReturn, b, ls0, [])"
        by (subst loadPost_loop.simps) simp
      then show False using assms eq by auto
    qed
    from loop_outcome [OF pos, of e slug b ls0] assms show ?thesis
      by (auto simp: eq split: prod.splits)
  qed
qed

text \<open>
  C3. When a call of \<open>loadPost\<close> for a slug has returned content (from either cache or
  from the network), every later call for that slug on the same Blog returns the same
  value from the memory cache, whatever the network, the clock and the persistent cache
  are by then: it makes no fetch, reads no storage, suspends nowhere and changes nothing.
\<close>

theorem loadPost_again_from_memory:
  assumes "loadPost e1 slug MAX_RETRIES b ls = (r, b1, ls1, evs1)"
      and "loaded r"
  shows "\<exists>v. returned r = Some v \<and>
           loadPost e2 slug MAX_RETRIES b1 ls2 = (FromMemory v, b1, ls2, [])"
proof -
  from loadPost_loaded_in_memory [OF assms] obtain v
    where v: "returned r = Some v" "loadedPosts b1 slug = Some v" by blast
  then show ?thesis by (simp add: loadPost_def)
qed

text \<open>The theorem after a first load from the network, with the browser offline afterwards.\<close>

theorem loadPost_again_from_memory_witness:
  "loadPost online ''a'' MAX_RETRIES fresh_blog Map.empty =
     (FromNetwork ''<h1>Hi</h1>'',
      fresh_blog\<lparr>loadedPosts := [''a'' \<mapsto> ''<h1>Hi</h1>'']\<rparr>,
      [cache_key ''a'' \<mapsto> Parsed ''<h1>Hi</h1>'' 5200],
      [GetItem (cache_key ''a''), Fetch (post_url ''a''), SetItem (cache_key ''a'')]) \<and>
   loaded (FromNetwork ''<h1>Hi</h1>'') \<and>
   loadPost offline ''a'' MAX_RETRIES (fresh_blog\<lparr>loadedPosts := [''a'' \<mapsto> ''<h1>Hi</h1>'']\<rparr>) Map.empty =
     (FromMemory ''<h1>Hi</h1>'', fresh_blog\<lparr>loadedPosts := [''a'' \<mapsto> ''<h1>Hi</h1>'']\<rparr>, Map.empty, [])"
proof -
  have a: "attempt online 0 ''a'' = Inr ''<h1>Hi</h1>''"
    by (simp add: attempt_def online_def)
  have m: "loadedPosts fresh_blog ''a'' = None"
    by (simp add: fresh_blog_def)
  have first: "loadPost online ''a'' MAX_RETRIES fresh_blog Map.empty =
     (FromNetwork ''<h1>Hi</h1>'',
      fresh_blog\<lparr>loadedPosts := [''a'' \<mapsto> ''<h1>Hi</h1>'']\<rparr>,
      [cache_key ''a'' \<mapsto> Parsed ''<h1>Hi</h1>'' 5200],
      [GetItem (cache_key ''a''), Fetch (post_url ''a''), SetItem (cache_key ''a'')])"
  proof -
    have env: "setItem_throws online = False" "date_now_after online 0 = 5200"
      by (simp_all add: online_def)
    have mem: "loadedPosts fresh_blog = Map.empty"
      by (simp add: fresh_blog_def)
    show ?thesis
      using m
      by (simp add: loadPost_uncached loop_success [OF a] MAX_RETRIES_def saveToCache_def
          Let_def env mem)
  qed
  have l: "loaded (FromNetwork ''<h1>Hi</h1>'')"
    by simp
  from loadPost_again_from_memory [OF first l, of offline Map.empty] first l
  show ?thesis by simp
qed

subsection \<open>C4: expiry of the persistent cache\<close>

lemma loop_starts_with_fetch:
  assumes "0 < retries"
  shows "\<exists>rest. snd (snd (snd (loadPost_loop e slug retries 0 b ls))) = Fetch (post_url slug) # rest"
proof (cases "attempt e 0 slug")
  case (Inr html)
  then show ?thesis using assms by (simp add: loop_success)
next
  case (Inl err)
  show ?thesis
  proof (cases "Suc 0 = retries")
    case True
    then show ?thesis by (simp add: loop_fail_last [OF Inl True])
  next
    case False
    then have "Suc 0 < retries" using assms by simp
    then show ?thesis by (simp add: loop_fail_more [OF Inl] split: prod.splits)
  qed
qed

lemma loadPost_after_purge:
  assumes "loadedPosts b slug = None" "0 < retries"
  shows "\<exists>rest. events_of (loadPost e slug retries b (ls(cache_key slug := None))) =
           GetItem (cache_key slug) # Fetch (post_url slug) # rest"
proof -
  have none: "(ls(cache_key slug := None)) (cache_key slug) = None" by simp
  from loop_starts_with_fetch [OF assms(2), of e slug b "ls(cache_key slug := None)"]
  show ?thesis
    using assms(1) none
    by (auto simp: events_of_def loadPost_uncached [of b slug "ls(cache_key slug := None)"]
        split: prod.splits)
qed

lemma loadPost_on_expired:
  assumes "loadedPosts b slug = None" "0 < retries"
      and "ls (cache_key slug) = Some (Parsed payload storedAt)"
      and "CACHE_DURATION \<le> date_now e - storedAt"
  shows "\<exists>rest. events_of (loadPost e slug retries b ls) =
           GetItem (cache_key slug) # RemoveItem (cache_key slug) # Fetch (post_url slug) # rest"
proof -
  from loop_starts_with_fetch [OF assms(2), of e slug b "ls(cache_key slug := None)"]
  show ?thesis using assms(1,3,4)
    by (auto simp: events_of_def loadPost_def getFromCache_def Let_def split: prod.splits)
qed

text \<open>
  C4. Let the store hold an entry for the slug. If its age \<open>now - storedAt\<close> is at least
  \<open>CACHE_DURATION\<close> (one hour), \<open>getFromCache\<close> removes the entry and returns \<open>null\<close>; a
  later \<open>loadPost\<close> for the slug, with nothing in the memory cache, then reads the store
  and goes on to fetch the post, and so does a \<open>loadPost\<close> that makes the expiring read
  itself. If the age is below \<open>CACHE_DURATION\<close>, \<open>getFromCache\<close> returns the payload and
  leaves the store alone.
\<close>

theorem getFromCache_expiry:
  assumes "ls (cache_key slug) = Some (Parsed payload storedAt)"
  shows "(CACHE_DURATION \<le> now - storedAt \<longrightarrow>
            getFromCache now slug ls =
              (None, ls(cache_key slug := None), [GetItem (cache_key slug), RemoveItem (cache_key slug)]) \<and>
            (\<forall>e b. loadedPosts b slug = None \<longrightarrow>
               (\<exists>rest. events_of (loadPost e slug MAX_RETRIES b (ls(cache_key slug := None))) =
                  GetItem (cache_key slug) # Fetch (post_url slug) # rest)) \<and>
            (\<forall>e b. loadedPosts b slug = None \<and> date_now e = now \<longrightarrow>
               (\<exists>rest. events_of (loadPost e slug MAX_RETRIES b ls) =
                  GetItem (cache_key slug) # RemoveItem (cache_key slug) # Fetch (post_url slug) # rest))) \<and>
         (now - storedAt < CACHE_DURATION \<longrightarrow>
            getFromCache now slug ls = (Some payload, ls, [GetItem (cache_key slug)]))"
proof -
  have pos: "0 < MAX_RETRIES" by (simp add: MAX_RETRIES_def)
  have fresh: "now - storedAt < CACHE_DURATION \<Longrightarrow>
      getFromCache now slug ls = (Some payload, ls, [GetItem (cache_key slug)])"
    using assms by (simp add: getFromCache_def Let_def)
  have stale: "CACHE_DURATION \<le> now - storedAt \<Longrightarrow>
      getFromCache now slug ls =
        (None, ls(cache_key slug := None), [GetItem (cache_key slug), RemoveItem (cache_key slug)])"
    using assms by (simp add: getFromCache_def Let_def)
  have purged: "\<exists>rest. events_of (loadPost e slug MAX_RETRIES b (ls(cache_key slug := None))) =
      GetItem (cache_key slug) # Fetch (post_url slug) # rest"
    if "loadedPosts b slug = None" for e b
    using loadPost_after_purge [of b slug MAX_RETRIES e ls] that pos by simp
  have direct: "\<exists>rest. events_of (loadPost e slug MAX_RETRIES b ls) =
      GetItem (cache_key slug) # RemoveItem (cache_key slug) # Fetch (post_url slug) # rest"
    if "loadedPosts b slug = None" "date_now e = now" "CACHE_DURATION \<le> now - storedAt" for e b
    using loadPost_on_expired [of b slug MAX_RETRIES ls payload storedAt e] that pos assms by simp
  show ?thesis
    using fresh stale purged direct by blast
qed

text \<open>The theorem at an entry written at time 1000, read one hour later and a millisecond earlier.\<close>

theorem getFromCache_expiry_witness:
  "old_store (cache_key ''a'') = Some (Parsed ''<p>old</p>'' 1000) \<and>
   CACHE_DURATION \<le> 3601000 - 1000 \<and>
   getFromCache 3601000 ''a'' old_store =
     (None, old_store(cache_key ''a'' := None), [GetItem (cache_key ''a''), RemoveItem (cache_key ''a'')]) \<and>
   loadedPosts fresh_blog ''a'' = None \<and>
   events_of (loadPost online ''a'' MAX_RETRIES fresh_blog (old_store(cache_key ''a'' := None))) =
     [GetItem (cache_key ''a''), Fetch (post_url ''a''), SetItem (cache_key ''a'')] \<and>
   3600999 - 1000 < CACHE_DURATION \<and>
   getFromCache 3600999 ''a'' old_store = (Some ''<p>old</p>'', old_store, [GetItem (cache_key ''a'')])"
proof -
  have h: "old_store (cache_key ''a'') = Some (Parsed ''<p>old</p>'' 1000)"
    by (simp add: old_store_def)
  have stale: "CACHE_DURATION \<le> 3601000 - 1000"
    by (simp add: CACHE_DURATION_def)
  have fresh: "3600999 - 1000 < CACHE_DURATION"
    by (simp add: CACHE_DURATION_def)
  have m: "loadedPosts fresh_blog ''a'' = None"
    by (simp add: fresh_blog_def)
  have a: "attempt online 0 ''a'' = Inr ''<h1>Hi</h1>''"
    by (simp add: attempt_def online_def)
  have evs: "events_of (loadPost online ''a'' MAX_RETRIES fresh_blog (old_store(cache_key ''a'' := None))) =
     [GetItem (cache_key ''a''), Fetch (post_url ''a''), SetItem (cache_key ''a'')]"
    using m by (simp add: events_of_def loadPost_uncached loop_success [OF a] MAX_RETRIES_def)
  from getFromCache_expiry [of old_store "''a''" "''<p>old</p>''" 1000 3601000]
    getFromCache_expiry [of old_store "''a''" "''<p>old</p>''" 1000 3600999]
  show ?thesis using h stale fresh m evs by simp
qed

subsection \<open>C5: what the search returns\<close>

text \<open>
  No white space character is the beginning of another one, so a string made of white
  space characters is stripped to nothing, and only such a string is.
\<close>

lemma white_space_prefix_free:
  "\<forall>w \<in> set white_space. \<forall>w' \<in> set white_space. prefix w w' \<longrightarrow> w = w'"
  by (simp add: white_space_def)

lemma white_space_nonempty: "[] \<notin> set white_space"
  by (simp add: white_space_def)

lemma strip_decomp: "\<exists>ts. set ts \<subseteq> set ws \<and> s = concat ts @ strip ws s"
proof (induction ws s rule: strip.induct)
  case (1 ws s)
  show ?case
  proof (cases "find (\<lambda>w. w \<noteq> [] \<and> prefix w s) ws")
    case None
    then have "strip ws s = s"
      by (subst strip.simps) simp
    then have "set [] \<subseteq> set ws \<and> s = concat [] @ strip ws s"
      by simp
    then show ?thesis by blast
  next
    case (Some w)
    then have w: "w \<in> set ws" "prefix w s"
      by (auto simp: find_Some_iff)
    have unfold: "strip ws s = strip ws (drop (length w) s)"
      using Some by (subst strip.simps) simp
    from "1.IH" [OF Some] obtain ts where ts: "set ts \<subseteq> set ws"
      "drop (length w) s = concat ts @ strip ws (drop (length w) s)"
      by blast
    have "s = w @ drop (length w) s"
      using w(2) by (auto simp: prefix_def)
    then have "s = concat (w # ts) @ strip ws s"
      using ts(2) unfold by simp
    moreover have "set (w # ts) \<subseteq> set ws"
      using w(1) ts(1) by simp
    ultimately show ?thesis by blast
  qed
qed

lemma strip_token:
  assumes free: "\<forall>w \<in> set ws. \<forall>w' \<in> set ws. prefix w w' \<longrightarrow> w = w'"
      and t: "t \<in> set ws" "t \<noteq> []"
  shows "strip ws (t @ r) = strip ws r"
proof -
  have "\<exists>w. find (\<lambda>w. w \<noteq> [] \<and> prefix w (t @ r)) ws = Some w"
    using t by (cases "find (\<lambda>w. w \<noteq> [] \<and> prefix w (t @ r)) ws") (auto simp: find_None_iff)
  then obtain w where f: "find (\<lambda>w. w \<noteq> [] \<and> prefix w (t @ r)) ws = Some w"
    by blast
  then have w: "w \<in> set ws" "prefix w (t @ r)"
    by (auto simp: find_Some_iff)
  have "prefix t (t @ r)"
    by simp
  with w(2) have "prefix w t \<or> prefix t w"
    using prefix_same_cases by blast
  then have "w = t"
    using free t(1) w(1) by blast
  then show ?thesis
    using f by (subst strip.simps) simp
qed

lemma strip_concat:
  assumes free: "\<forall>w \<in> set ws. \<forall>w' \<in> set ws. prefix w w' \<longrightarrow> w = w'"
      and ne: "[] \<notin> set ws"
  shows "set ts \<subseteq> set ws \<Longrightarrow> strip ws (concat ts @ r) = strip ws r"
proof (induction ts)
  case Nil
  then show ?case by simp
next
  case (Cons t ts)
  then have "t \<in> set ws" "t \<noteq> []"
    using ne by auto
  from strip_token [OF free this, of "concat ts @ r"] Cons show ?case
    by simp
qed

lemma strip_Nil: "strip ws [] = []"
proof -
  have "find (\<lambda>w. w \<noteq> [] \<and> prefix w []) ws = None"
    by (simp add: find_None_iff)
  then show ?thesis
    by (subst strip.simps) simp
qed

lemma trim_Nil: "trim [] = []"
  by (simp add: trim_def trimStart_def trimEnd_def strip_Nil)

lemma trim_empty_iff: "trim q = [] \<longleftrightarrow> blank q"
proof
  assume "blank q"
  then obtain ts where ts: "set ts \<subseteq> set white_space" "q = concat ts"
    by (auto simp: blank_def)
  from strip_concat [OF white_space_prefix_free white_space_nonempty ts(1), of "[]"]
  have "trimStart q = []"
    by (simp add: trimStart_def ts(2) strip_Nil)
  then show "trim q = []"
    by (simp add: trim_def trimEnd_def strip_Nil)
next
  assume "trim q = []"
  then have e: "strip (map rev white_space) (rev (trimStart q)) = []"
    by (simp add: trim_def trimEnd_def)
  from strip_decomp [of "map rev white_space" "rev (trimStart q)"] e
  obtain rs where rs: "set rs \<subseteq> set (map rev white_space)" "rev (trimStart q) = concat rs"
    by auto
  have "trimStart q = rev (concat rs)"
    using rs(2) by (metis rev_rev_ident)
  then have rest: "trimStart q = concat (map rev (rev rs))"
    by (simp add: rev_concat)
  have backset: "set (map rev (rev rs)) \<subseteq> set white_space"
    using rs(1) by auto
  from strip_decomp [of white_space q]
  obtain ts where ts: "set ts \<subseteq> set white_space" "q = concat ts @ trimStart q"
    by (auto simp: trimStart_def)
  have "q = concat (ts @ map rev (rev rs))"
    using ts(2) rest by simp
  moreover have "set (ts @ map rev (rev rs)) \<subseteq> set white_space"
    using ts(1) backset by simp
  ultimately show "blank q"
    unfolding blank_def by blast
qed

lemma includes_str_sublist: "includes_str s q \<longleftrightarrow> sublist q s"
proof (induction s)
  case Nil
  show ?case by simp
next
  case (Cons c cs)
  show ?case
    by (simp only: includes_str.simps sublist_Cons_right Cons.IH)
qed

lemma sublist_map_iff:
  "sublist (map f q) (map f s) \<longleftrightarrow> (\<exists>u m v. s = u @ m @ v \<and> map f m = map f q)"
proof
  assume "sublist (map f q) (map f s)"
  then obtain ps ss where eq: "map f s = ps @ (map f q @ ss)"
    unfolding sublist_def by blast
  have "\<exists>us vs. s = us @ vs \<and> ps = map f us \<and> map f q @ ss = map f vs"
    using eq by (simp only: map_eq_append_conv)
  then obtain u r where ur: "s = u @ r" "map f q @ ss = map f r"
    by blast
  have "\<exists>us vs. r = us @ vs \<and> map f q = map f us \<and> ss = map f vs"
    using ur(2) by (simp only: append_eq_map_conv)
  then obtain m v where mv: "r = m @ v" "map f q = map f m"
    by blast
  have "s = u @ m @ v \<and> map f m = map f q"
    using ur(1) mv by simp
  then show "\<exists>u m v. s = u @ m @ v \<and> map f m = map f q"
    by blast
next
  assume "\<exists>u m v. s = u @ m @ v \<and> map f m = map f q"
  then obtain u m v where "s = u @ m @ v" "map f m = map f q"
    by blast
  then have "map f s = map f u @ map f q @ map f v"
    by simp
  then show "sublist (map f q) (map f s)"
    unfolding sublist_def by blast
qed

text \<open>
  On ASCII text, lower-casing both sides and comparing is comparing letter by letter up
  to case.
\<close>

lemma capital_is_listed:
  assumes "is_capital c"
  shows "c \<in> set ''ABCDEFGHIJKLMNOPQRSTUVWXYZ''"
proof -
  have "(of_char c :: nat) \<in> {65..90}"
    using assms by (simp add: is_capital_def)
  also have "{65..90} = (of_char ` set ''ABCDEFGHIJKLMNOPQRSTUVWXYZ'' :: nat set)"
    by (auto simp: image_iff) arith
  finally obtain d where d: "d \<in> set ''ABCDEFGHIJKLMNOPQRSTUVWXYZ''" "(of_char c :: nat) = of_char d"
    by blast
  then have "c = d"
    by simp
  with d(1) show ?thesis by simp
qed

lemma lower_char_code:
  "(of_char (lower_char c) :: nat) = (if is_capital c then of_char c + 32 else of_char c)"
proof (cases "c \<in> set ''ABCDEFGHIJKLMNOPQRSTUVWXYZ''")
  case True
  then show ?thesis
    by (auto simp: lower_char_def is_capital_def)
next
  case False
  then have "lower_char c = c"
    by (simp add: lower_char_def)
  moreover have "\<not> is_capital c"
    using False capital_is_listed by blast
  ultimately show ?thesis by simp
qed

lemma lower_char_same_letter: "lower_char c = lower_char d \<longleftrightarrow> same_letter c d"
proof -
  have "lower_char c = lower_char d \<longleftrightarrow>
      (of_char (lower_char c) :: nat) = of_char (lower_char d)"
    by simp
  also have "\<dots> \<longleftrightarrow> same_letter c d"
  proof -
    have eq: "c = d \<longleftrightarrow> (of_char c :: nat) = of_char d"
      by simp
    show ?thesis
      unfolding lower_char_code same_letter_def eq is_capital_def by auto
  qed
  finally show ?thesis .
qed

lemma map_lower_same: "map lower_char a = map lower_char b \<longleftrightarrow> same_ignoring_case a b"
  unfolding same_ignoring_case_def
proof (induction a arbitrary: b)
  case Nil
  show ?case by simp
next
  case (Cons c a)
  show ?case
    by (cases b) (simp_all add: Cons.IH lower_char_same_letter)
qed

lemma includes_ascii_iff:
  assumes "lowers_ascii L" "ascii_text s" "ascii_text q"
  shows "includes_str (L s) (L q) \<longleftrightarrow> contains_ignoring_case s q"
proof -
  have "L s = map lower_char s" "L q = map lower_char q"
    using assms by (simp_all add: lowers_ascii_def toLowerCase_ascii_def)
  then show ?thesis
    by (simp add: includes_str_sublist sublist_map_iff contains_ignoring_case_def map_lower_same)
qed

lemma lowered_includes_ascii:
  assumes "lowers_ascii L" "ascii_text q" "ascii_summary p"
  shows "lowered_includes L q p \<longleftrightarrow> summary_matches q p"
proof -
  have tags: "includes_str (L t) (L q) \<longleftrightarrow> contains_ignoring_case t q"
    if "t \<in> set (tag_strings (field_of p ''tags''))" for t
    using that assms by (simp add: ascii_summary_def list_all_iff includes_ascii_iff)
  show ?thesis
    using assms tags
    by (auto simp: lowered_includes_def summary_matches_def ascii_summary_def includes_ascii_iff)
qed

lemma is_string_str_of: "is_string v \<Longrightarrow> v = JStr (str_of v)"
  by (cases v) auto

lemma tags_some_strings:
  "list_all is_string ts \<Longrightarrow>
     tags_some L lq ts = Inr (\<exists>t \<in> set (map str_of ts). includes_str (L t) lq)"
proof (induction ts)
  case Nil
  then show ?case by simp
next
  case (Cons t ts)
  then obtain s where "t = JStr s"
    by (cases t) auto
  with Cons show ?case by auto
qed

lemma read_prop_object: "is_object p \<Longrightarrow> read_prop p name = Inr (field_of p name)"
  by (cases p) auto

lemma post_matches_ok:
  assumes "summary_ok p"
  shows "post_matches L (L q) p = Inr (lowered_includes L q p)"
proof -
  have obj: "is_object p"
    using assms by (simp add: summary_ok_def)
  obtain t x where tx: "field_of p ''title'' = JStr t" "field_of p ''excerpt'' = JStr x"
    using assms is_string_str_of unfolding summary_ok_def by metis
  show ?thesis
  proof (cases "field_of p ''tags''")
    case (JArr ts)
    then have "list_all is_string ts"
      using assms by (simp add: summary_ok_def)
    from tags_some_strings [OF this] JArr tx show ?thesis
      by (auto simp: post_matches_def lowered_includes_def read_prop_object [OF obj])
  qed (use assms tx in \<open>auto simp: post_matches_def lowered_includes_def summary_ok_def
         read_prop_object [OF obj]\<close>)
qed

lemma filter_posts_ok:
  "list_all summary_ok ps \<Longrightarrow>
     filter_posts L (L q) ps = Inr (filter (lowered_includes L q) ps)"
  by (induction ps) (auto simp: post_matches_ok)

lemma performSearch_ok:
  assumes "list_all summary_ok ps"
  shows "performSearch L q (JArr ps) =
     Inr (JArr (if blank q then ps else filter (lowered_includes L q) ps))"
  using assms by (simp add: performSearch_def trim_empty_iff filter_posts_ok Let_def)

lemma summary_ok_hi: "summary_ok hi_post"
  by (simp add: summary_ok_def hi_post_def)

lemma ascii_examples:
  assumes "lowers_ascii L"
  shows "L ''Hello'' = ''hello''" "L ''world'' = ''world''" "L ''ell'' = ''ell''" "L ''zzz'' = ''zzz''"
  using assms by (simp_all add: lowers_ascii_def ascii_text_def toLowerCase_ascii_def lower_char_def)

lemma not_blank_ell: "\<not> blank ''ell''" "\<not> blank ''zzz''"
  by (simp_all add: trim_empty_iff [symmetric] trim_def trimStart_def trimEnd_def strip.simps
      white_space_def)

lemma search_examples:
  assumes "lowers_ascii L"
  shows "performSearch L ''ell'' (JArr [hi_post]) = Inr (JArr [hi_post])"
    and "performSearch L ''zzz'' (JArr [hi_post]) = Inr (JArr [])"
proof -
  have ok: "list_all summary_ok [hi_post]"
    by (simp add: summary_ok_hi)
  have "lowered_includes L ''ell'' hi_post"
    by (simp add: lowered_includes_def hi_post_def ascii_examples [OF assms])
  then show "performSearch L ''ell'' (JArr [hi_post]) = Inr (JArr [hi_post])"
    by (simp add: performSearch_ok [OF ok] not_blank_ell)
  have "\<not> lowered_includes L ''zzz'' hi_post"
    by (simp add: lowered_includes_def hi_post_def ascii_examples [OF assms])
  then show "performSearch L ''zzz'' (JArr [hi_post]) = Inr (JArr [])"
    by (simp add: performSearch_ok [OF ok] not_blank_ell)
qed

text \<open>
  C5, as the code has it. On a list of well-formed summaries, \<open>performSearch\<close> with an
  empty or whitespace-only query returns the whole list as it is. With any other query it
  returns, in the order of the list, exactly the summaries whose lower-cased title,
  excerpt or one of whose lower-cased tags includes the lower-cased query, whatever
  \<open>toLowerCase\<close> does. When \<open>toLowerCase\<close> treats ASCII text as it must, and the query and
  the summaries are ASCII text, these are exactly the summaries whose title, excerpt or
  one of whose tags contains the query as a case-insensitive substring; and for the index
  of the example \<open>ell\<close> finds the post \<open>hi\<close> and \<open>zzz\<close> finds nothing.
\<close>

theorem performSearch_meets_search:
  assumes "list_all summary_ok ps"
  shows "(blank q \<longrightarrow> performSearch L q (JArr ps) = Inr (JArr ps)) \<and>
         (\<not> blank q \<longrightarrow>
            performSearch L q (JArr ps) = Inr (JArr (filter (lowered_includes L q) ps))) \<and>
         (\<not> blank q \<and> lowers_ascii L \<and> ascii_text q \<and> list_all ascii_summary ps \<longrightarrow>
            performSearch L q (JArr ps) = Inr (JArr (filter (summary_matches q) ps))) \<and>
         (lowers_ascii L \<longrightarrow>
            performSearch L ''ell'' (JArr [hi_post]) = Inr (JArr [hi_post]) \<and>
            performSearch L ''zzz'' (JArr [hi_post]) = Inr (JArr []))"
proof (intro conjI impI)
  show "performSearch L q (JArr ps) = Inr (JArr ps)" if "blank q"
    using that by (simp add: performSearch_ok [OF assms])
  show "performSearch L q (JArr ps) = Inr (JArr (filter (lowered_includes L q) ps))"
    if "\<not> blank q"
    using that by (simp add: performSearch_ok [OF assms])
  show "performSearch L q (JArr ps) = Inr (JArr (filter (summary_matches q) ps))"
    if a: "\<not> blank q \<and> lowers_ascii L \<and> ascii_text q \<and> list_all ascii_summary ps"
  proof -
    have "filter (lowered_includes L q) ps = filter (summary_matches q) ps"
      using a by (intro filter_cong) (auto simp: list_all_iff lowered_includes_ascii)
    then show ?thesis
      using a by (simp add: performSearch_ok [OF assms])
  qed
  show "performSearch L ''ell'' (JArr [hi_post]) = Inr (JArr [hi_post])" if "lowers_ascii L"
    by (rule search_examples(1) [OF that])
  show "performSearch L ''zzz'' (JArr [hi_post]) = Inr (JArr [])" if "lowers_ascii L"
    by (rule search_examples(2) [OF that])
qed

text \<open>
  The theorem at a list of two summaries: a query of a space and a no-break space, a
  query that meets a tag up to case, and the two queries of the example.
\<close>

lemma lowers_ascii_sample: "lowers_ascii toLowerCase_sample"
  by (auto simp: lowers_ascii_def toLowerCase_sample_def ascii_text_def capital_sigma_def)

lemma blank_space_nbsp: "blank ('' '' @ [CHR 0xC2, CHR 0xA0])"
  by (simp add: trim_empty_iff [symmetric] trim_def trimStart_def trimEnd_def strip.simps
      white_space_def)

lemma not_blank_web: "\<not> blank ''web''"
  by (simp add: trim_empty_iff [symmetric] trim_def trimStart_def trimEnd_def strip.simps
      white_space_def)

lemma summary_ok_tagged: "summary_ok tagged_post"
  by (simp add: summary_ok_def tagged_post_def)

theorem performSearch_meets_search_witness:
  "list_all summary_ok [hi_post, tagged_post] \<and>
   blank ('' '' @ [CHR 0xC2, CHR 0xA0]) \<and>
   performSearch toLowerCase_sample ('' '' @ [CHR 0xC2, CHR 0xA0]) (JArr [hi_post, tagged_post]) =
     Inr (JArr [hi_post, tagged_post]) \<and>
   \<not> blank ''web'' \<and>
   lowers_ascii toLowerCase_sample \<and>
   ascii_text ''web'' \<and>
   list_all ascii_summary [hi_post, tagged_post] \<and>
   performSearch toLowerCase_sample ''web'' (JArr [hi_post, tagged_post]) = Inr (JArr [tagged_post]) \<and>
   filter (summary_matches ''web'') [hi_post, tagged_post] = [tagged_post] \<and>
   performSearch toLowerCase_sample ''ell'' (JArr [hi_post]) = Inr (JArr [hi_post]) \<and>
   performSearch toLowerCase_sample ''zzz'' (JArr [hi_post]) = Inr (JArr [])"
proof -
  have ok: "list_all summary_ok [hi_post, tagged_post]"
    by (simp add: summary_ok_hi summary_ok_tagged)
  have asc: "ascii_text ''web''" "list_all ascii_summary [hi_post, tagged_post]"
    by (simp_all add: ascii_text_def ascii_summary_def hi_post_def tagged_post_def)
  have low: "toLowerCase_sample ''web'' = ''web''" "toLowerCase_sample ''Hello'' = ''hello''"
    "toLowerCase_sample ''world'' = ''world''" "toLowerCase_sample ''Notes'' = ''notes''"
    "toLowerCase_sample ''short'' = ''short''" "toLowerCase_sample ''Web'' = ''web''"
    "toLowerCase_sample ''JS'' = ''js''"
    by (simp_all add: toLowerCase_sample_def toLowerCase_ascii_def lower_char_def capital_sigma_def)
  have inc: "filter (lowered_includes toLowerCase_sample ''web'') [hi_post, tagged_post] = [tagged_post]"
    by (simp add: lowered_includes_def hi_post_def tagged_post_def low)
  note inst = performSearch_meets_search [OF ok, of _ toLowerCase_sample]
  have r1: "performSearch toLowerCase_sample ('' '' @ [CHR 0xC2, CHR 0xA0]) (JArr [hi_post, tagged_post]) =
     Inr (JArr [hi_post, tagged_post])"
    using inst [of "'' '' @ [CHR 0xC2, CHR 0xA0]"] blank_space_nbsp by blast
  have r2: "performSearch toLowerCase_sample ''web'' (JArr [hi_post, tagged_post]) =
     Inr (JArr (filter (lowered_includes toLowerCase_sample ''web'') [hi_post, tagged_post]))"
    using inst [of "''web''"] not_blank_web by blast
  have r3: "performSearch toLowerCase_sample ''web'' (JArr [hi_post, tagged_post]) =
     Inr (JArr (filter (summary_matches ''web'') [hi_post, tagged_post]))"
    using inst [of "''web''"] not_blank_web lowers_ascii_sample asc by blast
  have r4: "performSearch toLowerCase_sample ''ell'' (JArr [hi_post]) = Inr (JArr [hi_post])"
    "performSearch toLowerCase_sample ''zzz'' (JArr [hi_post]) = Inr (JArr [])"
    using inst [of "''web''"] lowers_ascii_sample by blast+
  have r5: "filter (summary_matches ''web'') [hi_post, tagged_post] = [tagged_post]"
    using r2 r3 inc by simp
  show ?thesis
    using ok blank_space_nbsp not_blank_web lowers_ascii_sample asc r1 r2 r4 r5 inc
    by simp
qed

text \<open>
  C5 as stated speaks of every summary that contains the query as a case-insensitive
  substring. The title \<open>A\<close> followed by a capital sigma contains the query, a capital
  sigma, as it stands. Lower-cased, the sigma of the title is a final sigma and the
  sigma of the query a small sigma, so \<open>includes\<close> fails and the search returns nothing.
\<close>

lemma not_blank_sigma: "\<not> blank capital_sigma"
  by (simp add: trim_empty_iff [symmetric] trim_def trimStart_def trimEnd_def strip.simps
      white_space_def capital_sigma_def)

theorem performSearch_final_sigma_counterexample:
  "summary_ok sigma_post \<and>
   \<not> blank capital_sigma \<and>
   toLowerCase_sample capital_sigma = small_sigma \<and>
   toLowerCase_sample (''A'' @ capital_sigma) = ''a'' @ final_sigma \<and>
   str_of (field_of sigma_post ''title'') = ''A'' @ capital_sigma \<and>
   sublist capital_sigma (str_of (field_of sigma_post ''title'')) \<and>
   summary_matches capital_sigma sigma_post \<and>
   performSearch toLowerCase_sample capital_sigma (JArr [sigma_post]) = Inr (JArr [])"
proof -
  have ok: "summary_ok sigma_post"
    by (simp add: summary_ok_def sigma_post_def)
  have title: "str_of (field_of sigma_post ''title'') = ''A'' @ capital_sigma"
    by (simp add: sigma_post_def)
  have split: "''A'' @ capital_sigma = ''A'' @ capital_sigma @ []"
    by simp
  have sub: "sublist capital_sigma (''A'' @ capital_sigma)"
    unfolding sublist_def using split by blast
  have "same_ignoring_case capital_sigma capital_sigma"
    by (simp add: same_ignoring_case_def same_letter_def list_all2_same)
  with split have "contains_ignoring_case (''A'' @ capital_sigma) capital_sigma"
    unfolding contains_ignoring_case_def by blast
  then have sm: "summary_matches capital_sigma sigma_post"
    by (simp only: summary_matches_def title) simp
  have "\<not> lowered_includes toLowerCase_sample capital_sigma sigma_post"
    by (simp add: lowered_includes_def sigma_post_def toLowerCase_sample_def toLowerCase_ascii_def
        lower_char_def capital_sigma_def small_sigma_def final_sigma_def)
  then have "performSearch toLowerCase_sample capital_sigma (JArr [sigma_post]) = Inr (JArr [])"
    using ok not_blank_sigma by (simp add: performSearch_ok)
  moreover have "toLowerCase_sample capital_sigma = small_sigma"
    "toLowerCase_sample (''A'' @ capital_sigma) = ''a'' @ final_sigma"
    by (simp_all add: toLowerCase_sample_def capital_sigma_def)
  ultimately show ?thesis
    using ok not_blank_sigma title sub sm by (simp only: simp_thms)
qed

subsection \<open>C6: a failed load of the index\<close>








text \<open>A served index is kept as it is in \<open>allPosts\<close> and sorted, newest first, in \<open>posts\<close>.\<close>

lemma loadPosts_sorts_newest_first:
  "loadPosts (serving (JArr [hi_post, tagged_post])) fresh_blog =
     (fresh_blog\<lparr>allPosts := JArr [hi_post, tagged_post], posts := [tagged_post, hi_post]\<rparr>,
      [Fetch index_url])"
  by (simp add: loadPosts_def loadPosts_try_def sort_by_date_def date_value_def serving_def
      hi_post_def tagged_post_def)

text \<open>
  An element \<open>null\<close> makes the comparator throw, which is caught like every failure; a
  single element is never compared.
\<close>

lemma loadPosts_null_elements:
  "loadPosts (serving (JArr [JNull, hi_post])) fresh_blog =
     (fresh_blog\<lparr>posts := [], allPosts := JArr []\<rparr>, [Fetch index_url])"
  "loadPosts (serving (JArr [JNull])) fresh_blog =
     (fresh_blog\<lparr>allPosts := JArr [JNull], posts := [JNull]\<rparr>, [Fetch index_url])"
  by (simp_all add: loadPosts_def loadPosts_try_def sort_by_date_def date_value_def serving_def
      hi_post_def)

subsection \<open>C7: back and forward\<close>

lemma on_popstate_pair:
  "on_popstate (Some (view, sl)) b =
     (b\<lparr>currentView := view, currentSlug := sl\<rparr>, [Render (render_page view sl), UpdatePageMeta])"
  by (simp add: on_popstate_def)

lemma go_back_to_pushed:
  assumes "0 < position h" "position h \<le> length (entries h)"
      and "entries h ! (position h - 1) = (Some (view, sl), url)"
  shows "go_back (b, h) =
     ((b\<lparr>currentView := view, currentSlug := sl\<rparr>, h\<lparr>position := position h - 1\<rparr>),
      [Render (render_page view sl), UpdatePageMeta])"
  using assms by (simp add: go_back_def Let_def on_popstate_pair)

lemma go_forward_to_pushed:
  assumes "position h + 1 < length (entries h)"
      and "entries h ! (position h + 1) = (Some (view, sl), url)"
  shows "go_forward (b, h) =
     ((b\<lparr>currentView := view, currentSlug := sl\<rparr>, h\<lparr>position := position h + 1\<rparr>),
      [Render (render_page view sl), UpdatePageMeta])"
  using assms by (simp add: go_forward_def Let_def on_popstate_pair)

lemma navigateTo_pushes:
  assumes "position h < length (entries h)"
  shows "navigateTo view sl True (b, h) =
     ((b\<lparr>currentView := view, currentSlug := sl\<rparr>,
       \<lparr>entries = take (Suc (position h)) (entries h) @ [(Some (view, sl), nav_url view sl)],
        position = Suc (position h)\<rparr>),
      [ToggleActive view, PushState (view, sl) (nav_url view sl), UpdatePageMeta,
       Render (render_page view sl)])"
  by (simp add: navigateTo_def pushState_def Let_def)

lemma home_post_back:
  assumes "position h < length (entries h)"
  shows "go_back (fst (navigateTo ''post'' (Some a) True (fst (navigateTo ''home'' None True (b, h))))) =
     ((b\<lparr>currentView := ''home'', currentSlug := None\<rparr>,
       \<lparr>entries = take (Suc (position h)) (entries h) @
          [(Some (''home'', None), ''#''), (Some (''post'', Some a), nav_url ''post'' (Some a))],
        position = Suc (position h)\<rparr>),
      [Render PostsList, UpdatePageMeta])"
proof -
  define h1 where "h1 = \<lparr>entries = take (Suc (position h)) (entries h) @ [(Some (''home'', None), ''#'')],
        position = Suc (position h)\<rparr>"
  define h2 where "h2 = \<lparr>entries = take (Suc (position h)) (entries h) @
          [(Some (''home'', None), ''#''), (Some (''post'', Some a), nav_url ''post'' (Some a))],
        position = Suc (Suc (position h))\<rparr>"
  define b1 where "b1 = b\<lparr>currentView := ''home'', currentSlug := None\<rparr>"
  have len: "length (take (Suc (position h)) (entries h)) = Suc (position h)"
    using assms by simp
  have n1: "fst (navigateTo ''home'' None True (b, h)) = (b1, h1)"
    by (simp add: navigateTo_pushes [OF assms] nav_url_def h1_def b1_def)
  have wf1: "position h1 < length (entries h1)"
    using len by (simp add: h1_def)
  have n2: "fst (navigateTo ''post'' (Some a) True (b1, h1)) =
     (b1\<lparr>currentView := ''post'', currentSlug := Some a\<rparr>, h2)"
  proof -
    have "take (Suc (position h1)) (entries h1) = entries h1"
      using len by (simp add: h1_def)
    then show ?thesis
      by (simp add: navigateTo_pushes [OF wf1]) (simp add: h1_def h2_def)
  qed
  have nth: "entries h2 ! (position h2 - 1) = (Some (''home'', None), ''#'')"
    using len by (simp add: h2_def nth_append)
  have pos: "0 < position h2" "position h2 \<le> length (entries h2)"
    using len by (simp_all add: h2_def)
  have "go_back (b1\<lparr>currentView := ''post'', currentSlug := Some a\<rparr>, h2) =
     ((b1\<lparr>currentView := ''home'', currentSlug := None\<rparr>, h2\<lparr>position := position h2 - 1\<rparr>),
      [Render PostsList, UpdatePageMeta])"
    by (simp add: go_back_to_pushed [OF pos nth] render_page_def)
  then show ?thesis
    unfolding n1 n2 by (simp add: b1_def h2_def)
qed

text \<open>
  The entry of a page just opened was not pushed by the page: going back to it delivers
  no state, and the listener leaves the view as it is.
\<close>

lemma back_to_opening_entry_keeps_view:
  "go_back (fst (navigateTo ''post'' (Some ''a'') True (fresh_blog, opened))) =
     ((fresh_blog\<lparr>currentView := ''post'', currentSlug := Some ''a''\<rparr>,
       \<lparr>entries = [(None, []), (Some (''post'', Some ''a''), ''#a'')], position = 0\<rparr>), [])"
  by (simp add: navigateTo_def pushState_def go_back_def on_popstate_def Let_def nav_url_def
      opened_def)

text \<open>
  C7. When the entry the browser goes back or forward to holds a pair \<open>(view, slug)\<close>
  pushed earlier, the \<open>popstate\<close> listener puts exactly that pair into \<open>currentView\<close> and
  \<open>currentSlug\<close> and renders the view of that pair; the entries of the history stay as
  they are and no \<open>pushState\<close> is made. \<open>navigateTo\<close> with \<open>pushState\<close> pushes such an entry.
  In particular \<open>navigateTo('home')\<close>, then \<open>navigateTo('post', a)\<close>, then back: the view
  is \<open>home\<close> again and the listing is rendered.
\<close>

theorem popstate_restores_pushed_pair:
  assumes "position h < length (entries h)"
  shows "(0 < position h \<and> entries h ! (position h - 1) = (Some (view, sl), url) \<longrightarrow>
            go_back (b, h) =
              ((b\<lparr>currentView := view, currentSlug := sl\<rparr>, h\<lparr>position := position h - 1\<rparr>),
               [Render (render_page view sl), UpdatePageMeta])) \<and>
         (position h + 1 < length (entries h) \<and>
          entries h ! (position h + 1) = (Some (view, sl), url) \<longrightarrow>
            go_forward (b, h) =
              ((b\<lparr>currentView := view, currentSlug := sl\<rparr>, h\<lparr>position := position h + 1\<rparr>),
               [Render (render_page view sl), UpdatePageMeta])) \<and>
         navigateTo view sl True (b, h) =
           ((b\<lparr>currentView := view, currentSlug := sl\<rparr>,
             \<lparr>entries = take (Suc (position h)) (entries h) @ [(Some (view, sl), nav_url view sl)],
              position = Suc (position h)\<rparr>),
            [ToggleActive view, PushState (view, sl) (nav_url view sl), UpdatePageMeta,
             Render (render_page view sl)]) \<and>
         go_back (fst (navigateTo ''post'' (Some a) True (fst (navigateTo ''home'' None True (b, h))))) =
           ((b\<lparr>currentView := ''home'', currentSlug := None\<rparr>,
             \<lparr>entries = take (Suc (position h)) (entries h) @
                [(Some (''home'', None), ''#''), (Some (''post'', Some a), nav_url ''post'' (Some a))],
              position = Suc (position h)\<rparr>),
            [Render PostsList, UpdatePageMeta])"
proof (intro conjI impI)
  assume "0 < position h \<and> entries h ! (position h - 1) = (Some (view, sl), url)"
  then show "go_back (b, h) =
      ((b\<lparr>currentView := view, currentSlug := sl\<rparr>, h\<lparr>position := position h - 1\<rparr>),
       [Render (render_page view sl), UpdatePageMeta])"
    using assms go_back_to_pushed [of h view sl url b] by simp
next
  assume "position h + 1 < length (entries h) \<and>
          entries h ! (position h + 1) = (Some (view, sl), url)"
  then show "go_forward (b, h) =
      ((b\<lparr>currentView := view, currentSlug := sl\<rparr>, h\<lparr>position := position h + 1\<rparr>),
       [Render (render_page view sl), UpdatePageMeta])"
    using go_forward_to_pushed [of h view sl url b] by simp
next
  show "navigateTo view sl True (b, h) =
           ((b\<lparr>currentView := view, currentSlug := sl\<rparr>,
             \<lparr>entries = take (Suc (position h)) (entries h) @ [(Some (view, sl), nav_url view sl)],
              position = Suc (position h)\<rparr>),
            [ToggleActive view, PushState (view, sl) (nav_url view sl), UpdatePageMeta,
             Render (render_page view sl)])"
    by (rule navigateTo_pushes [OF assms])
next
  show "go_back (fst (navigateTo ''post'' (Some a) True (fst (navigateTo ''home'' None True (b, h))))) =
           ((b\<lparr>currentView := ''home'', currentSlug := None\<rparr>,
             \<lparr>entries = take (Suc (position h)) (entries h) @
                [(Some (''home'', None), ''#''), (Some (''post'', Some a), nav_url ''post'' (Some a))],
              position = Suc (position h)\<rparr>),
            [Render PostsList, UpdatePageMeta])"
    by (rule home_post_back [OF assms])
qed

text \<open>
  The theorem on a page just opened: home, the post \<open>a\<close>, back, and forward again from
  there.
\<close>

theorem popstate_restores_pushed_pair_witness:
  "position opened < length (entries opened) \<and>
   go_back (fst (navigateTo ''post'' (Some ''a'') True (fst (navigateTo ''home'' None True (fresh_blog, opened))))) =
     ((fresh_blog\<lparr>currentView := ''home'', currentSlug := None\<rparr>,
       \<lparr>entries = [(None, []), (Some (''home'', None), ''#''), (Some (''post'', Some ''a''), ''#a'')],
        position = 1\<rparr>),
      [Render PostsList, UpdatePageMeta]) \<and>
   position \<lparr>entries = [(None, []), (Some (''home'', None), ''#''), (Some (''post'', Some ''a''), ''#a'')],
        position = 1\<rparr> + 1 <
     length (entries \<lparr>entries = [(None, []), (Some (''home'', None), ''#''), (Some (''post'', Some ''a''), ''#a'')],
        position = 1\<rparr>) \<and>
   go_forward (fresh_blog\<lparr>currentView := ''home'', currentSlug := None\<rparr>,
       \<lparr>entries = [(None, []), (Some (''home'', None), ''#''), (Some (''post'', Some ''a''), ''#a'')],
        position = 1\<rparr>) =
     ((fresh_blog\<lparr>currentView := ''post'', currentSlug := Some ''a''\<rparr>,
       \<lparr>entries = [(None, []), (Some (''home'', None), ''#''), (Some (''post'', Some ''a''), ''#a'')],
        position = 2\<rparr>),
      [Render (PostView (Some ''a'')), UpdatePageMeta])"
proof -
  let ?h = "\<lparr>entries = [(None, []), (Some (''home'', None), ''#''), (Some (''post'', Some ''a''), ''#a'')],
        position = 1\<rparr>"
  have wf: "position opened < length (entries opened)"
    by (simp add: opened_def)
  have wf': "position ?h < length (entries ?h)"
    by simp
  have fwd: "position ?h + 1 < length (entries ?h) \<and>
      entries ?h ! (position ?h + 1) = (Some (''post'', Some ''a''), ''#a'')"
    by simp
  from popstate_restores_pushed_pair [OF wf', of "''post''" "Some ''a''" "''#a''"
      "fresh_blog\<lparr>currentView := ''home'', currentSlug := None\<rparr>"] fwd
  have f: "go_forward (fresh_blog\<lparr>currentView := ''home'', currentSlug := None\<rparr>, ?h) =
     ((fresh_blog\<lparr>currentView := ''post'', currentSlug := Some ''a''\<rparr>, ?h\<lparr>position := position ?h + 1\<rparr>),
      [Render (render_page ''post'' (Some ''a'')), UpdatePageMeta])"
    by simp
  from popstate_restores_pushed_pair [OF wf, of undefined undefined undefined fresh_blog "''a''"]
  have b: "go_back (fst (navigateTo ''post'' (Some ''a'') True (fst (navigateTo ''home'' None True (fresh_blog, opened))))) =
           ((fresh_blog\<lparr>currentView := ''home'', currentSlug := None\<rparr>,
             \<lparr>entries = take (Suc (position opened)) (entries opened) @
                [(Some (''home'', None), ''#''), (Some (''post'', Some ''a''), nav_url ''post'' (Some ''a''))],
              position = Suc (position opened)\<rparr>),
            [Render PostsList, UpdatePageMeta])"
    by simp
  show ?thesis
    using wf f b by (simp add: opened_def nav_url_def render_page_def)
qed

subsection \<open>C8: the debounce of the search input\<close>

lemma run_append:
  "run L all s (xs @ ys) = (case run L all s xs of None \<Rightarrow> None | Some s' \<Rightarrow> run L all s' ys)"
  by (induction xs arbitrary: s) (auto split: option.splits)

lemma run_burst:
  assumes "ks \<noteq> []" "clock s \<le> fst (hd ks)" "within_delay ks"
  shows "run L all s (keystrokes ks) =
     Some (s\<lparr>clock := fst (last ks), input_value := snd (last ks),
             searchTimeout := Some (fst (last ks) + DEBOUNCE_DELAY)\<rparr>)"
  using assms
proof (induction ks arbitrary: s rule: within_delay.induct)
  case 1
  then show ?case by simp
next
  case (2 k)
  then show ?case by (simp add: keystrokes_def on_input_def)
next
  case (3 k k' ks)
  have first: "step L all s (Input (fst k) (snd k)) = Some (on_input (fst k) (snd k) s)"
    using "3.prems" by simp
  have "clock (on_input (fst k) (snd k) s) \<le> fst (hd (k' # ks))"
    using "3.prems" by (simp add: on_input_def)
  from "3.IH" [OF _ this] "3.prems"
  have "run L all (on_input (fst k) (snd k) s) (keystrokes (k' # ks)) =
     Some ((on_input (fst k) (snd k) s)\<lparr>clock := fst (last (k' # ks)), input_value := snd (last (k' # ks)),
             searchTimeout := Some (fst (last (k' # ks)) + DEBOUNCE_DELAY)\<rparr>)"
    by simp
  then show ?case
    using first by (simp add: keystrokes_def on_input_def)
qed

lemma within_delay_split:
  "within_delay (ks1 @ ks2) \<Longrightarrow> ks1 \<noteq> [] \<Longrightarrow> ks2 \<noteq> [] \<Longrightarrow>
     within_delay ks1 \<and> fst (hd ks2) < fst (last ks1) + DEBOUNCE_DELAY"
proof (induction ks1 rule: within_delay.induct)
  case 1
  then show ?case by simp
next
  case (2 k)
  then show ?case by (cases ks2) auto
next
  case (3 k k' ks)
  then show ?case by auto
qed

lemma no_timer_inside_burst:
  assumes "ks1 \<noteq> []" "ks2 \<noteq> []" "clock s \<le> fst (hd (ks1 @ ks2))" "within_delay (ks1 @ ks2)"
  shows "run L all s (keystrokes ks1 @ TimerFires t # keystrokes ks2) = None"
proof -
  from within_delay_split [OF assms(4,1,2)]
  have wd: "within_delay ks1" and near: "fst (hd ks2) < fst (last ks1) + DEBOUNCE_DELAY"
    by simp_all
  have "clock s \<le> fst (hd ks1)"
    using assms(1,3) by simp
  from run_burst [OF assms(1) this wd]
  have r1: "run L all s (keystrokes ks1) =
     Some (s\<lparr>clock := fst (last ks1), input_value := snd (last ks1),
             searchTimeout := Some (fst (last ks1) + DEBOUNCE_DELAY)\<rparr>)" .
  obtain k ks where ks2: "ks2 = k # ks"
    using assms(2) by (cases ks2) auto
  have "run L all s (keystrokes ks1 @ TimerFires t # keystrokes ks2) =
      run L all (s\<lparr>clock := fst (last ks1), input_value := snd (last ks1),
             searchTimeout := Some (fst (last ks1) + DEBOUNCE_DELAY)\<rparr>)
        (TimerFires t # keystrokes ks2)"
    by (simp add: run_append r1)
  also have "\<dots> = None"
    using near by (simp add: ks2 keystrokes_def on_timer_def show_results_def)
  finally show ?thesis .
qed

lemma escape_is_immediate:
  assumes "clock s \<le> t"
  shows "step L all s (KeyDown t ''Escape'') =
     Some (s\<lparr>clock := t, input_value := [], searchResults := Hint,
             evaluated := evaluated s @ [(t, [])]\<rparr>)"
  using assms
  by (simp add: on_keydown_def show_results_def displayResults_def performSearch_def trim_Nil)

lemma timer_after_burst:
  assumes "ks \<noteq> []" "clock s \<le> fst (hd ks)" "within_delay ks"
  shows "\<exists>s'. run L all s (keystrokes ks) = Some s' \<and> evaluated s' = evaluated s \<and>
           (\<forall>t. t < fst (last ks) + DEBOUNCE_DELAY \<longrightarrow> step L all s' (TimerFires t) = None) \<and>
           (\<forall>t. fst (last ks) + DEBOUNCE_DELAY \<le> t \<longrightarrow>
              (\<exists>s''. step L all s' (TimerFires t) = Some s'' \<and>
                     evaluated s'' = evaluated s @ [(t, snd (last ks))] \<and>
                     searchResults s'' =
                       (case displayResults L (snd (last ks)) all of
                          Inl error \<Rightarrow> searchResults s | Inr d \<Rightarrow> d) \<and>
                     (\<forall>t'. step L all s'' (TimerFires t') = None)))"
proof -
  define s' where "s' = s\<lparr>clock := fst (last ks), input_value := snd (last ks),
             searchTimeout := Some (fst (last ks) + DEBOUNCE_DELAY)\<rparr>"
  have r: "run L all s (keystrokes ks) = Some s'"
    unfolding s'_def by (rule run_burst [OF assms])
  have early: "step L all s' (TimerFires t) = None" if "t < fst (last ks) + DEBOUNCE_DELAY" for t
    using that by (simp add: s'_def)
  have due: "\<exists>s''. step L all s' (TimerFires t) = Some s'' \<and>
                     evaluated s'' = evaluated s @ [(t, snd (last ks))] \<and>
                     searchResults s'' =
                       (case displayResults L (snd (last ks)) all of
                          Inl error \<Rightarrow> searchResults s | Inr d \<Rightarrow> d) \<and>
                     (\<forall>t'. step L all s'' (TimerFires t') = None)"
    if "fst (last ks) + DEBOUNCE_DELAY \<le> t" for t
    using that by (simp add: s'_def on_timer_def show_results_def split: sum.splits)
  have "evaluated s' = evaluated s"
    by (simp add: s'_def)
  with r early due show ?thesis by blast
qed

text \<open>
  C8. Take a run of keystrokes in which each comes less than 300 ms after the one before.
  While the run lasts no call of \<open>displayResults\<close> is made, and none can be: a timer
  callback between two of the keystrokes is impossible. After the run one timer is
  pending; it cannot fire before the input has been quiet for 300 ms, and when it fires
  it makes one call of \<open>displayResults\<close>, with the value of the input after the last
  keystroke, after which no timer is pending. Escape, at any time, empties the input and
  calls \<open>displayResults('')\<close> at once, which shows the hint, whatever timer is pending.
\<close>

theorem debounce_collapses_keystrokes:
  "(ks \<noteq> [] \<and> clock s \<le> fst (hd ks) \<and> within_delay ks \<longrightarrow>
      (\<exists>s'. run L all s (keystrokes ks) = Some s' \<and> evaluated s' = evaluated s \<and>
           (\<forall>t. t < fst (last ks) + DEBOUNCE_DELAY \<longrightarrow> step L all s' (TimerFires t) = None) \<and>
           (\<forall>t. fst (last ks) + DEBOUNCE_DELAY \<le> t \<longrightarrow>
              (\<exists>s''. step L all s' (TimerFires t) = Some s'' \<and>
                     evaluated s'' = evaluated s @ [(t, snd (last ks))] \<and>
                     searchResults s'' =
                       (case displayResults L (snd (last ks)) all of
                          Inl error \<Rightarrow> searchResults s | Inr d \<Rightarrow> d) \<and>
                     (\<forall>t'. step L all s'' (TimerFires t') = None)))) \<and>
      (\<forall>ks1 ks2 t. ks = ks1 @ ks2 \<and> ks1 \<noteq> [] \<and> ks2 \<noteq> [] \<longrightarrow>
           run L all s (keystrokes ks1 @ TimerFires t # keystrokes ks2) = None)) \<and>
   (clock s \<le> t0 \<longrightarrow>
      (\<exists>s'. step L all s (KeyDown t0 ''Escape'') = Some s' \<and> input_value s' = [] \<and>
           searchResults s' = Hint \<and> evaluated s' = evaluated s @ [(t0, [])]))"
proof (intro conjI impI)
  assume a: "ks \<noteq> [] \<and> clock s \<le> fst (hd ks) \<and> within_delay ks"
  then show "\<exists>s'. run L all s (keystrokes ks) = Some s' \<and> evaluated s' = evaluated s \<and>
           (\<forall>t. t < fst (last ks) + DEBOUNCE_DELAY \<longrightarrow> step L all s' (TimerFires t) = None) \<and>
           (\<forall>t. fst (last ks) + DEBOUNCE_DELAY \<le> t \<longrightarrow>
              (\<exists>s''. step L all s' (TimerFires t) = Some s'' \<and>
                     evaluated s'' = evaluated s @ [(t, snd (last ks))] \<and>
                     searchResults s'' =
                       (case displayResults L (snd (last ks)) all of
                          Inl error \<Rightarrow> searchResults s | Inr d \<Rightarrow> d) \<and>
                     (\<forall>t'. step L all s'' (TimerFires t') = None)))"
    using timer_after_burst [of ks s L all] by blast
  show "\<forall>ks1 ks2 t. ks = ks1 @ ks2 \<and> ks1 \<noteq> [] \<and> ks2 \<noteq> [] \<longrightarrow>
           run L all s (keystrokes ks1 @ TimerFires t # keystrokes ks2) = None"
    using a no_timer_inside_burst [of _ _ s L all] by blast
next
  assume "clock s \<le> t0"
  from escape_is_immediate [OF this, of L all]
  show "\<exists>s'. step L all s (KeyDown t0 ''Escape'') = Some s' \<and> input_value s' = [] \<and>
           searchResults s' = Hint \<and> evaluated s' = evaluated s @ [(t0, [])]"
    by simp
qed

text \<open>The theorem for \<open>h\<close>, \<open>he\<close>, \<open>hel\<close> typed at 0, 100 and 250 ms, and Escape at 10 ms.\<close>

lemma typed_hel:
  "run toLowerCase_sample (JArr [hi_post]) search_opened (keystrokes [(0, ''h''), (100, ''he''), (250, ''hel'')]) =
     Some (search_opened\<lparr>clock := 250, input_value := ''hel'', searchTimeout := Some 550\<rparr>)"
  by (simp add: keystrokes_def search_opened_def on_input_def DEBOUNCE_DELAY_def)

theorem debounce_collapses_keystrokes_witness:
  "[(0, ''h''), (100, ''he''), (250, ''hel'')] \<noteq> [] \<and>
   clock search_opened \<le> fst (hd [(0 :: nat, ''h''), (100, ''he''), (250, ''hel'')]) \<and>
   within_delay [(0, ''h''), (100, ''he''), (250, ''hel'')] \<and>
   run toLowerCase_sample (JArr [hi_post]) search_opened (keystrokes [(0, ''h''), (100, ''he''), (250, ''hel'')]) =
     Some (search_opened\<lparr>clock := 250, input_value := ''hel'', searchTimeout := Some 550\<rparr>) \<and>
   step toLowerCase_sample (JArr [hi_post]) (search_opened\<lparr>clock := 250, input_value := ''hel'', searchTimeout := Some 550\<rparr>)
     (TimerFires 549) = None \<and>
   step toLowerCase_sample (JArr [hi_post]) (search_opened\<lparr>clock := 250, input_value := ''hel'', searchTimeout := Some 550\<rparr>)
     (TimerFires 550) =
     Some \<lparr>clock = 550, input_value = ''hel'', searchTimeout = None,
           searchResults = Results [hi_post], evaluated = [(550, ''hel'')]\<rparr> \<and>
   run toLowerCase_sample (JArr [hi_post]) search_opened
     (keystrokes [(0, ''h''), (100, ''he'')] @ TimerFires 400 # keystrokes [(250, ''hel'')]) = None \<and>
   clock search_opened \<le> 10 \<and>
   step toLowerCase_sample (JArr [hi_post]) search_opened (KeyDown 10 ''Escape'') =
     Some (search_opened\<lparr>clock := 10, evaluated := [(10, [])]\<rparr>)"
proof -
  let ?ks = "[(0 :: nat, ''h''), (100, ''he''), (250, ''hel'')]"
  have h1: "?ks \<noteq> []" by simp
  have h2: "clock search_opened \<le> fst (hd ?ks)" by (simp add: search_opened_def)
  have h3: "within_delay ?ks" by (simp add: DEBOUNCE_DELAY_def)
  have h4: "clock search_opened \<le> 10" by (simp add: search_opened_def)
  have split: "?ks = [(0, ''h''), (100, ''he'')] @ [(250, ''hel'')]" by simp
  have shown: "displayResults toLowerCase_sample ''hel'' (JArr [hi_post]) = Inr (Results [hi_post])"
  proof -
    have nb: "\<not> blank ''hel''"
      by (simp add: trim_empty_iff [symmetric] trim_def trimStart_def trimEnd_def strip.simps
          white_space_def)
    have low: "toLowerCase_sample ''hel'' = ''hel''" "toLowerCase_sample ''Hello'' = ''hello''"
      by (simp_all add: toLowerCase_sample_def toLowerCase_ascii_def lower_char_def
          capital_sigma_def)
    have "lowered_includes toLowerCase_sample ''hel'' hi_post"
      by (simp add: lowered_includes_def hi_post_def low)
    then have "performSearch toLowerCase_sample ''hel'' (JArr [hi_post]) = Inr (JArr [hi_post])"
      using nb by (simp add: performSearch_ok summary_ok_hi)
    then show ?thesis
      using nb by (simp add: displayResults_def trim_empty_iff)
  qed
  have fire: "step toLowerCase_sample (JArr [hi_post]) (search_opened\<lparr>clock := 250, input_value := ''hel'', searchTimeout := Some 550\<rparr>)
     (TimerFires 550) =
     Some \<lparr>clock = 550, input_value = ''hel'', searchTimeout = None,
           searchResults = Results [hi_post], evaluated = [(550, ''hel'')]\<rparr>"
    by (simp add: on_timer_def show_results_def shown search_opened_def)
  have early: "step toLowerCase_sample (JArr [hi_post]) (search_opened\<lparr>clock := 250, input_value := ''hel'', searchTimeout := Some 550\<rparr>)
     (TimerFires 549) = None"
    by simp
  have esc: "step toLowerCase_sample (JArr [hi_post]) search_opened (KeyDown 10 ''Escape'') =
     Some (search_opened\<lparr>clock := 10, evaluated := [(10, [])]\<rparr>)"
    by (simp add: on_keydown_def show_results_def displayResults_def performSearch_def trim_Nil
        search_opened_def)
  from debounce_collapses_keystrokes [of ?ks search_opened toLowerCase_sample "JArr [hi_post]" 10] h1 h2 h3 h4 split
  have "run toLowerCase_sample (JArr [hi_post]) search_opened
     (keystrokes [(0, ''h''), (100, ''he'')] @ TimerFires 400 # keystrokes [(250, ''hel'')]) = None"
    by blast
  with h1 h2 h3 h4 typed_hel fire early esc show ?thesis
    by simp
qed

subsection \<open>C9: setting the current language\<close>

text \<open>
  C9. \<open>setLanguage\<close> with the language that is already current changes nothing: the
  current language, the stored preference, the language attribute of the document and
  the number of reloads are as before, whether or not the storage would accept a write,
  and no exception leaves the method. So \<open>setLanguage(getLanguage())\<close> is the identity.
\<close>

theorem setLanguage_current_is_identity:
  "setLanguage throws (getLanguage m) m = (m, None)"
  by (simp add: setLanguage_def getLanguage_def)

subsection \<open>C10: summaries without tags\<close>

lemma lowered_includes_no_tags:
  assumes "\<not> truthy (field_of p ''tags'')"
  shows "lowered_includes L q p \<longleftrightarrow>
           includes_str (L (str_of (field_of p ''title''))) (L q) \<or>
           includes_str (L (str_of (field_of p ''excerpt''))) (L q)"
proof -
  have "tag_strings (field_of p ''tags'') = []"
    using assms by (cases "field_of p ''tags''") auto
  then show ?thesis
    by (simp add: lowered_includes_def)
qed

text \<open>
  The guard \<^verbatim>\<open>post.tags &&\<close> covers the missing field only: a summary without a title,
  tags that are not an array, or an element that is \<open>null\<close> make the callback throw.
\<close>

lemma not_blank_x: "\<not> blank ''x''"
  by (simp add: trim_empty_iff [symmetric] trim_def trimStart_def trimEnd_def strip.simps
      white_space_def)

lemma performSearch_raises_without_title:
  "performSearch L ''x'' (JArr [JObj [(''slug'', JStr ''hi''), (''excerpt'', JStr ''world'')]]) =
     Inl (TypeError ''Cannot read properties of undefined'')"
  using not_blank_x by (simp add: performSearch_def trim_empty_iff post_matches_def Let_def)

lemma performSearch_raises_on_tags_number:
  "performSearch toLowerCase_sample ''x''
     (JArr [JObj [(''title'', JStr ''Hello''), (''excerpt'', JStr ''world''), (''tags'', JNum 7)]]) =
     Inl (TypeError ''post.tags.some is not a function'')"
  using not_blank_x
  by (simp add: performSearch_def trim_empty_iff post_matches_def Let_def toLowerCase_sample_def
      toLowerCase_ascii_def lower_char_def capital_sigma_def)

lemma performSearch_raises_on_null_element:
  "performSearch L ''x'' (JArr [JNull]) = Inl (TypeError ''Cannot read properties of null'')"
  using not_blank_x by (simp add: performSearch_def trim_empty_iff post_matches_def Let_def)

text \<open>After a string has been stored as the index, a search with a query throws.\<close>

lemma search_on_string_index_raises:
  "performSearch L ''x'' (JStr ''abc'') = Inl (TypeError ''this.allPosts.filter is not a function'')"
  using not_blank_x by (simp add: performSearch_def trim_empty_iff Let_def)

text \<open>
  C10. On a list of well-formed summaries \<open>performSearch\<close> returns a list for every query,
  it does not throw; and a summary whose \<open>tags\<close> field is missing (or falsy) is in the
  result exactly when the query is blank or the lower-cased title or excerpt includes the
  lower-cased query.
\<close>

theorem performSearch_never_raises:
  assumes "list_all summary_ok ps"
  shows "\<exists>found. performSearch L q (JArr ps) = Inr (JArr found) \<and>
           (\<forall>p \<in> set ps. \<not> truthy (field_of p ''tags'') \<longrightarrow>
              (p \<in> set found \<longleftrightarrow>
                 blank q \<or>
                 includes_str (L (str_of (field_of p ''title''))) (L q) \<or>
                 includes_str (L (str_of (field_of p ''excerpt''))) (L q)))"
proof (cases "blank q")
  case True
  then show ?thesis
    by (simp add: performSearch_ok [OF assms])
next
  case False
  then have "performSearch L q (JArr ps) = Inr (JArr (filter (lowered_includes L q) ps))"
    by (simp add: performSearch_ok [OF assms])
  then show ?thesis
    using False lowered_includes_no_tags by auto
qed

text \<open>The theorem at the summary without tags of the example, found through its excerpt.\<close>

theorem performSearch_never_raises_witness:
  "list_all summary_ok [hi_post, tagged_post] \<and>
   \<not> truthy (field_of hi_post ''tags'') \<and>
   performSearch toLowerCase_sample ''WORLD'' (JArr [hi_post, tagged_post]) = Inr (JArr [hi_post]) \<and>
   includes_str (toLowerCase_sample (str_of (field_of hi_post ''excerpt''))) (toLowerCase_sample ''WORLD'')"
proof -
  have ok: "list_all summary_ok [hi_post, tagged_post]"
    by (simp add: summary_ok_hi summary_ok_tagged)
  have nt: "\<not> truthy (field_of hi_post ''tags'')"
    by (simp add: hi_post_def)
  have low: "toLowerCase_sample ''WORLD'' = ''world''" "toLowerCase_sample ''Hello'' = ''hello''"
    "toLowerCase_sample ''world'' = ''world''" "toLowerCase_sample ''Notes'' = ''notes''"
    "toLowerCase_sample ''short'' = ''short''" "toLowerCase_sample ''Web'' = ''web''"
    "toLowerCase_sample ''JS'' = ''js''"
    by (simp_all add: toLowerCase_sample_def toLowerCase_ascii_def lower_char_def capital_sigma_def)
  have nb: "\<not> blank ''WORLD''"
    by (simp add: trim_empty_iff [symmetric] trim_def trimStart_def trimEnd_def strip.simps
        white_space_def)
  have inc: "filter (lowered_includes toLowerCase_sample ''WORLD'') [hi_post, tagged_post] = [hi_post]"
    by (simp add: lowered_includes_def hi_post_def tagged_post_def low)
  have run: "performSearch toLowerCase_sample ''WORLD'' (JArr [hi_post, tagged_post]) = Inr (JArr [hi_post])"
    using nb inc by (simp add: performSearch_ok [OF ok])
  have exc: "includes_str (toLowerCase_sample (str_of (field_of hi_post ''excerpt''))) (toLowerCase_sample ''WORLD'')"
    by (simp add: hi_post_def low)
  from performSearch_never_raises [OF ok, of toLowerCase_sample "''WORLD''"] run nt ok exc
  show ?thesis
    by simp
qed

end
